theory Spec2Isabelle
  imports Complex_Main
begin

section \<open>Data model (src/types.ts, src/constants.ts)\<close>

datatype Author = USER | ASSISTANT

datatype MessageCategory = CONTEXT | BRAINSTORM | REFINEMENT | TANGENT | DECISION

text \<open>
  A \<open>Message\<close> of src/types.ts. The field \<open>id\<close> is called \<open>msg_id\<close> here
  (\<open>id\<close> is the identity function of HOL); \<open>parentId: string | null\<close> is a
  \<open>string option\<close>. Timestamps are the integers \<open>Date.now()\<close> yields.
\<close>

record Message =
  msg_id :: string
  parentId :: "string option"
  author :: Author
  content :: string
  timestamp :: int
  category :: "MessageCategory option"
  branchId :: "string option"

record Chapter =
  chap_id :: string
  title :: string
  chap_category :: MessageCategory
  startMessageId :: string
  messageCount :: nat
  subtopics :: "string list"

definition ROOT_ID :: string where
  "ROOT_ID = ''root''"

definition GHOST_ID :: string where
  "GHOST_ID = ''ghost-draft''"

definition MAX_DEPTH :: nat where
  "MAX_DEPTH = 5000"

section \<open>JavaScript primitives used by the code\<close>

text \<open>Truthiness of a \<open>string | null\<close>: \<open>null\<close> and the empty string are falsy.\<close>

definition truthy :: "string option \<Rightarrow> bool" where
  "truthy s = (case s of None \<Rightarrow> False | Some t \<Rightarrow> t \<noteq> [])"

text \<open>\<open>Array.prototype.findIndex\<close>: the first index whose element satisfies the test, else -1.\<close>

fun findIndex :: "('a \<Rightarrow> bool) \<Rightarrow> 'a list \<Rightarrow> int" where
  "findIndex P [] = -1"
| "findIndex P (x # xs) =
     (if P x then 0 else (let i = findIndex P xs in if i < 0 then -1 else i + 1))"

text \<open>Reading \<open>xs[i]\<close>: \<open>undefined\<close> (here \<open>None\<close>) outside the array.\<close>

definition elemAt :: "'a list \<Rightarrow> int \<Rightarrow> 'a option" where
  "elemAt xs i = (if 0 \<le> i \<and> i < int (length xs) then Some (xs ! nat i) else None)"

text \<open>
  \<open>xs.sort((a, b) => a.timestamp - b.timestamp)\<close> is a stable ascending sort on the
  timestamp, \<open>xs.sort((a, b) => b.timestamp - a.timestamp)\<close> a stable descending one.
\<close>

definition sortAsc :: "Message list \<Rightarrow> Message list" where
  "sortAsc xs = sort_key timestamp xs"

definition sortDesc :: "Message list \<Rightarrow> Message list" where
  "sortDesc xs = sort_key (\<lambda>m. - timestamp m) xs"

section \<open>Thread resolver (src/App.tsx, currentThread)\<close>

text \<open>
  The walk loop of \<open>currentThread\<close>. The state of the loop is \<open>currentId\<close>,
  \<open>loopSafety\<close> and the \<open>thread\<close> built so far (\<open>unshift\<close> prepends); the function
  returns the thread together with the final value of \<open>loopSafety\<close>, the number of hops.
\<close>

function walk :: "Message list \<Rightarrow> string option \<Rightarrow> nat \<Rightarrow> Message list \<Rightarrow> Message list \<times> nat" where
  "walk messages currentId loopSafety thread =
     (case currentId of
        None \<Rightarrow> (thread, loopSafety)
      | Some cid \<Rightarrow>
          if cid \<noteq> [] \<and> loopSafety < MAX_DEPTH then
            (case find (\<lambda>m. msg_id m = cid) messages of
               Some msg \<Rightarrow>
                 walk messages (parentId msg) (loopSafety + 1)
                   (if msg_id msg \<noteq> ROOT_ID then msg # thread else thread)
             | None \<Rightarrow> (thread, loopSafety + 1))
          else (thread, loopSafety))"
  by pat_completeness auto
termination
  by (relation "measure (\<lambda>(messages, currentId, loopSafety, thread). MAX_DEPTH - loopSafety)") auto

declare walk.simps [simp del]

text \<open>The placeholder of a draft in progress; \<open>now\<close> is the reading of \<open>Date.now()\<close>.\<close>

definition ghostMsg :: "string \<Rightarrow> int \<Rightarrow> Message" where
  "ghostMsg activeBranchHeadId now =
     \<lparr> msg_id = GHOST_ID, parentId = Some activeBranchHeadId, author = USER,
       content = [], timestamp = now, category = None, branchId = None \<rparr>"

text \<open>
  The sibling metadata the \<open>map\<close> callback spreads onto a message. A message returned as
  it is (no truthy \<open>parentId\<close>, or an empty sibling list) has \<open>info = None\<close>.
\<close>

record SiblingInfo =
  siblingCount :: nat
  siblingIndex :: int
  prevSibling :: "Message option"
  nextSibling :: "Message option"

record ThreadEntry =
  entry :: Message
  info :: "SiblingInfo option"

definition hideGhost :: "Message option \<Rightarrow> Message option" where
  "hideGhost s = (case s of None \<Rightarrow> None
                  | Some m \<Rightarrow> if msg_id m = GHOST_ID then None else Some m)"

definition annotate :: "Message list \<Rightarrow> string \<Rightarrow> bool \<Rightarrow> int \<Rightarrow> Message \<Rightarrow> ThreadEntry" where
  "annotate messages activeBranchHeadId isDraftingBranch now msg =
     (if \<not> truthy (parentId msg) then \<lparr> entry = msg, info = None \<rparr>
      else
        let siblings0 = sortAsc (filter (\<lambda>m. parentId m = parentId msg) messages);
            siblings1 =
              (if isDraftingBranch \<and> parentId msg = Some activeBranchHeadId
                  \<and> \<not> (\<exists>s \<in> set siblings0. msg_id s = GHOST_ID)
               then siblings0 @ [ghostMsg activeBranchHeadId now] else siblings0);
            siblings =
              (if msg_id msg = GHOST_ID
               then sortAsc (filter (\<lambda>m. parentId m = Some activeBranchHeadId) messages) @ [msg]
               else siblings1)
        in if length siblings \<ge> 1 then
             let index = findIndex (\<lambda>s. msg_id s = msg_id msg) siblings in
             \<lparr> entry = msg,
               info = Some \<lparr> siblingCount = length siblings,
                             siblingIndex = index + 1,
                             prevSibling = hideGhost (elemAt siblings (index - 1)),
                             nextSibling = hideGhost (elemAt siblings (index + 1)) \<rparr> \<rparr>
           else \<lparr> entry = msg, info = None \<rparr>)"

definition currentThread :: "Message list \<Rightarrow> string \<Rightarrow> bool \<Rightarrow> int \<Rightarrow> ThreadEntry list" where
  "currentThread messages activeBranchHeadId isDraftingBranch now =
     (let thread = fst (walk messages (Some activeBranchHeadId) 0 []);
          thread' = (if isDraftingBranch then thread @ [ghostMsg activeBranchHeadId now] else thread)
      in map (annotate messages activeBranchHeadId isDraftingBranch now) thread')"

section \<open>Branch navigator (src/App.tsx, handleSwipeBranch and handleSendMessage)\<close>

datatype Direction = Prev | Next

datatype SwipeDirection = Left | Right

text \<open>
  The body of the leaf-descent loop: the children of \<open>pointer\<close>, sorted by descending
  timestamp, and the id of the first of them; \<open>None\<close> when there is no child.
\<close>

definition mostRecentChild :: "Message list \<Rightarrow> string \<Rightarrow> string option" where
  "mostRecentChild messages pointer =
     (let children = filter (\<lambda>m. parentId m = Some pointer) messages
      in if length children > 0 then Some (msg_id (hd (sortDesc children))) else None)"

text \<open>
  The loop \<open>while (hasChild)\<close> has no bound of its own, so it is a partial function:
  \<open>None\<close> is a loop that never ends, \<open>Some p\<close> the leaf it stops at.
\<close>

partial_function (option) descend :: "Message list \<Rightarrow> string \<Rightarrow> string option" where
  "descend messages pointer =
     (case mostRecentChild messages pointer of
        Some child \<Rightarrow> descend messages child
      | None \<Rightarrow> Some pointer)"

text \<open>The four statements that compute \<open>nextIndex\<close> from \<open>currentIndex\<close>.\<close>

definition computeNextIndex :: "string \<Rightarrow> Direction \<Rightarrow> int \<Rightarrow> int \<Rightarrow> int" where
  "computeNextIndex currentMsgId direction currentIndex len =
     (let n0 = (if direction = Next then currentIndex + 1 else currentIndex - 1);
          n1 = (if currentMsgId = GHOST_ID \<and> direction = Prev then len - 1 else n0);
          n2 = (if n1 \<ge> len then 0 else n1);
          n3 = (if n2 < 0 then len - 1 else n2)
      in n3)"

record NavState =
  activeBranchHeadId :: string
  isDraftingBranch :: bool
  swipeDirection :: SwipeDirection

text \<open>
  How a call of the handler ends: it returns with the state it leaves, or
  \<open>targetSibling.id\<close> throws a TypeError on an \<open>undefined\<close> sibling, after the
  state updates made before it.
\<close>

datatype Outcome = Returned NavState | Threw NavState

definition handleSwipeBranch ::
  "Message list \<Rightarrow> NavState \<Rightarrow> string \<Rightarrow> Direction \<Rightarrow> Outcome option" where
  "handleSwipeBranch messages st currentMsgId direction =
     (let st1 = st\<lparr> swipeDirection := (if direction = Prev then Left else Right) \<rparr>;
          currentMsg = find (\<lambda>m. msg_id m = currentMsgId) messages;
          effectiveParentId =
            (case currentMsg of
               Some m \<Rightarrow> parentId m
             | None \<Rightarrow> if currentMsgId = GHOST_ID then Some (activeBranchHeadId st) else None)
      in if \<not> truthy effectiveParentId then Some (Returned st1)
         else
           let siblings = sortAsc (filter (\<lambda>m. parentId m = effectiveParentId) messages);
               currentIndex =
                 (if currentMsgId = GHOST_ID then int (length siblings)
                  else findIndex (\<lambda>s. msg_id s = currentMsgId) siblings)
           in if currentIndex = -1 then Some (Returned st1)
              else
                let nextIndex = computeNextIndex currentMsgId direction currentIndex
                                  (int (length siblings));
                    st2 = (if currentMsgId = GHOST_ID then st1\<lparr> isDraftingBranch := False \<rparr>
                           else st1)
                in case elemAt siblings nextIndex of
                     None \<Rightarrow> Some (Threw st2)
                   | Some targetSibling \<Rightarrow>
                       (case descend messages (msg_id targetSibling) of
                          None \<Rightarrow> None
                        | Some pointer \<Rightarrow>
                            Some (Returned (st2\<lparr> activeBranchHeadId := pointer \<rparr>))))"

text \<open>
  The relation "\<open>c\<close> is the id of a stored message whose \<open>parentId\<close> is \<open>p\<close>": the
  parent links of the store, read downwards.
\<close>

definition childRel :: "Message list \<Rightarrow> (string \<times> string) set" where
  "childRel messages = {(p, c). \<exists>m \<in> set messages. parentId m = Some p \<and> msg_id m = c}"

text \<open>
  A store in insertion order: every message has an id no earlier message has, and its
  parent, if it has one, is an earlier message (or one of \<open>seen\<close>). The stores the
  handlers build are of this kind: they append a message below an existing one.
\<close>

fun parentsEarlier :: "string list \<Rightarrow> Message list \<Rightarrow> bool" where
  "parentsEarlier seen [] = True"
| "parentsEarlier seen (m # ms) =
     (msg_id m \<notin> set seen \<and>
      (case parentId m of None \<Rightarrow> True | Some p \<Rightarrow> p \<in> set seen) \<and>
      parentsEarlier (msg_id m # seen) ms)"


section \<open>Strings (JavaScript built-ins)\<close>

text \<open>
  Strings are lists of 8-bit characters, so the built-ins below are those of JavaScript on
  the code units 0 to 255: the white space \<open>trim\<close> removes there is tab, line feed,
  vertical tab, form feed, carriage return, space and no-break space, and the letters
  \<open>toLowerCase\<close> changes are A to Z and the accented capitals 192 to 222 (without the
  multiplication sign 215), each 32 below its small letter.
\<close>

definition isWhiteSpace :: "char \<Rightarrow> bool" where
  "isWhiteSpace c = ((of_char c :: nat) \<in> {9, 10, 11, 12, 13, 32, 160})"

definition trim :: "string \<Rightarrow> string" where
  "trim s = rev (dropWhile isWhiteSpace (rev (dropWhile isWhiteSpace s)))"

definition toLowerChar :: "char \<Rightarrow> char" where
  "toLowerChar c =
     (let n = (of_char c :: nat)
      in if (65 \<le> n \<and> n \<le> 90) \<or> (192 \<le> n \<and> n \<le> 222 \<and> n \<noteq> 215)
         then (case c of Char b0 b1 b2 b3 b4 b5 b6 b7 \<Rightarrow> Char b0 b1 b2 b3 b4 True b6 b7)
         else c)"

definition toLowerCase :: "string \<Rightarrow> string" where
  "toLowerCase s = map toLowerChar s"

text \<open>\<open>s.includes(t)\<close>: \<open>t\<close> occurs in \<open>s\<close> as a substring.\<close>

fun startsWith :: "string \<Rightarrow> string \<Rightarrow> bool" where
  "startsWith s [] = True"
| "startsWith [] (y # ys) = False"
| "startsWith (x # xs) (y # ys) = (x = y \<and> startsWith xs ys)"

fun includesStr :: "string \<Rightarrow> string \<Rightarrow> bool" where
  "includesStr [] t = (t = [])"
| "includesStr (x # xs) t = (startsWith (x # xs) t \<or> includesStr xs t)"

text \<open>\<open>s.replace(/^"|"$/g, '')\<close>: one double quote less at the start and at the end.\<close>

definition stripQuotes :: "string \<Rightarrow> string" where
  "stripQuotes s =
     (let s1 = (case s of c # cs \<Rightarrow> if c = CHR 0x22 then cs else s | [] \<Rightarrow> [])
      in if s1 \<noteq> [] \<and> last s1 = CHR 0x22 then butlast s1 else s1)"

text \<open>The decimal digits of a number, as a template literal prints \<open>Date.now()\<close>.\<close>

function showNat :: "nat \<Rightarrow> string" where
  "showNat n = (if n < 10 then [''0123456789'' ! n]
                else showNat (n div 10) @ [''0123456789'' ! (n mod 10)])"
  by pat_completeness auto
termination
  by (relation "measure id") auto

declare showNat.simps [simp del]

definition showInt :: "int \<Rightarrow> string" where
  "showInt i = (if i < 0 then CHR ''-'' # showNat (nat (- i)) else showNat (nat i))"

text \<open>\<open>Array.from(new Set(xs))\<close>: the first occurrence of every element, in order.\<close>

fun dedupe :: "'a list \<Rightarrow> 'a list" where
  "dedupe [] = []"
| "dedupe (x # xs) = x # dedupe (filter (\<lambda>y. y \<noteq> x) xs)"

text \<open>The polyfill of \<open>findLastIndex\<close>: the loop from the last index down to 0.\<close>

definition findLastIndex :: "('a \<Rightarrow> bool) \<Rightarrow> 'a list \<Rightarrow> int" where
  "findLastIndex P xs =
     (let i = findIndex P (rev xs) in if i < 0 then -1 else int (length xs) - 1 - i)"

section \<open>Submitting a message (src/App.tsx, handleSendMessage)\<close>

record AppState = NavState +
  messages :: "Message list"
  chapters :: "Chapter list"
  inputText :: string
  isStreaming :: bool
  showCanvasTip :: bool

text \<open>
  The readings of \<open>Date.now()\<close> in the handler, in the order the code takes them: for
  the id of the new message, its timestamp, its branch id, the id of the branch chapter,
  the id of the response placeholder and the placeholder's timestamp. A reading is a time
  value of ECMAScript, an integer of magnitude at most 8.64e15, so \<open>Date.now() + 1\<close> is
  exact.
\<close>

record SendClock =
  t_msgId :: int
  t_msgTimestamp :: int
  t_branchId :: int
  t_chapId :: int
  t_respId :: int
  t_respTimestamp :: int

definition parentHasChildren :: "Message list \<Rightarrow> string \<Rightarrow> bool" where
  "parentHasChildren msgs headId = (\<exists>m \<in> set msgs. parentId m = Some headId)"

text \<open>
  The handler up to its \<open>await streamResponse\<close>: the state after the guard, the eager
  branch chapter, the new user message and the response placeholder. The state updaters
  are applied in the order they are queued.
\<close>

definition handleSendMessage :: "SendClock \<Rightarrow> AppState \<Rightarrow> AppState" where
  "handleSendMessage clock st =
     (if trim (inputText st) = [] \<or> isStreaming st then st
      else
        let content = inputText st;
            wasDrafting = isDraftingBranch st;
            newMsgId = ''msg-'' @ showInt (t_msgId clock);
            hasChildren = parentHasChildren (messages st) (activeBranchHeadId st);
            newMessage = \<lparr> msg_id = newMsgId, parentId = Some (activeBranchHeadId st),
                           author = USER, content = content,
                           timestamp = t_msgTimestamp clock, category = Some REFINEMENT,
                           branchId = (if wasDrafting then Some (''b-'' @ showInt (t_branchId clock))
                                       else None) \<rparr>;
            isBranching = (wasDrafting \<or> (hasChildren \<and> activeBranchHeadId st \<noteq> ''root''));
            newBranchChapter =
              \<lparr> chap_id = ''chap-'' @ showInt (t_chapId clock),
                title = ''Branch: '' @ take 15 content @ (if length content > 15 then ''...'' else []),
                chap_category = DECISION, startMessageId = newMsgId, messageCount = 0,
                subtopics = [] \<rparr>;
            responseId = ''resp-'' @ showInt (t_respId clock);
            responsePlaceholder =
              \<lparr> msg_id = responseId, parentId = Some newMsgId, author = ASSISTANT, content = [],
                timestamp = t_respTimestamp clock + 1, category = None, branchId = None \<rparr>
        in st\<lparr> activeBranchHeadId := responseId,
                isDraftingBranch := False,
                messages := messages st @ [newMessage, responsePlaceholder],
                chapters := (if isBranching then chapters st @ [newBranchChapter] else chapters st),
                inputText := [],
                isStreaming := True,
                showCanvasTip := (hasChildren \<or> showCanvasTip st) \<rparr>)"

section \<open>Topic classifier (src/services/gemini.ts, analyzeTopicShift)\<close>

datatype Backend = GEMINI | OLLAMA

datatype Role = RoleUser | RoleModel

text \<open>
  The two prompts the classifier sends, by the values interpolated into their templates
  (the fixed text of a template is the same in every call): the current topic and the
  first 300 characters of the last user and model messages, or the first 500 characters
  of the joined batch.
\<close>

datatype Prompt = TopicShiftPrompt string string string | InitialTitlePrompt string

text \<open>
  The analysis calls of the two providers, \<open>executeGeminiAnalysis\<close> and
  \<open>callOllamaAnalysis\<close>, are network calls: what they answer to a prompt is a parameter.
  Both catch every exception and return \<open>null\<close> (here \<open>None\<close>) on failure.
\<close>

record Providers =
  executeGeminiAnalysis :: "Prompt \<Rightarrow> string option"
  callOllamaAnalysis :: "Prompt \<Rightarrow> string option"

definition strategies :: "Providers \<Rightarrow> Backend \<Rightarrow> (Prompt \<Rightarrow> string option) list" where
  "strategies pr preferredBackend =
     (if preferredBackend = OLLAMA then [callOllamaAnalysis pr, executeGeminiAnalysis pr]
      else [executeGeminiAnalysis pr, callOllamaAnalysis pr])"

text \<open>\<open>xs.filter(m => m.role === r).pop()?.content || ""\<close>\<close>

definition lastContentOf :: "Role \<Rightarrow> (Role \<times> string) list \<Rightarrow> string" where
  "lastContentOf r newMessages =
     (case filter (\<lambda>m. fst m = r) newMessages of [] \<Rightarrow> [] | ms \<Rightarrow> snd (last ms))"

fun joinLines :: "string list \<Rightarrow> string" where
  "joinLines [] = []"
| "joinLines [x] = x"
| "joinLines (x # y # ys) = x @ [CHR 0x0A] @ joinLines (y # ys)"

text \<open>The loop \<open>for (const strategy of strategies)\<close> of \<open>generateInitialTitle\<close>.\<close>

fun initialTitleLoop :: "(Prompt \<Rightarrow> string option) list \<Rightarrow> Prompt \<Rightarrow> string" where
  "initialTitleLoop [] prompt = ''Conversation Start''"
| "initialTitleLoop (strategy # rest) prompt =
     (let result = strategy prompt
      in if truthy result then stripQuotes (trim (the result))
         else initialTitleLoop rest prompt)"

definition generateInitialTitle :: "Providers \<Rightarrow> (Role \<times> string) list \<Rightarrow> Backend \<Rightarrow> string" where
  "generateInitialTitle pr msgs preferredBackend =
     initialTitleLoop (strategies pr preferredBackend)
       (InitialTitlePrompt (take 500 (joinLines (map snd msgs))))"

text \<open>The loop \<open>for (const strategy of strategies)\<close> of \<open>analyzeTopicShift\<close>.\<close>

fun topicShiftLoop :: "(Prompt \<Rightarrow> string option) list \<Rightarrow> Prompt \<Rightarrow> string \<Rightarrow> string" where
  "topicShiftLoop [] prompt currentTopic = ''SAME''"
| "topicShiftLoop (strategy # rest) prompt currentTopic =
     (let result = strategy prompt
      in if truthy result then
           (let clean = stripQuotes (trim (the result))
            in if toLowerCase clean = toLowerCase currentTopic then ''SAME'' else clean)
         else topicShiftLoop rest prompt currentTopic)"

definition analyzeTopicShift ::
  "Providers \<Rightarrow> string option \<Rightarrow> (Role \<times> string) list \<Rightarrow> Backend \<Rightarrow> string" where
  "analyzeTopicShift pr currentTopic newMessages preferredBackend =
     (if \<not> truthy currentTopic then generateInitialTitle pr newMessages preferredBackend
      else
        let topic = the currentTopic;
            lastUserMessage = lastContentOf RoleUser newMessages;
            lastModelMessage = lastContentOf RoleModel newMessages
        in topicShiftLoop (strategies pr preferredBackend)
             (TopicShiftPrompt topic (take 300 lastUserMessage) (take 300 lastModelMessage))
             topic)"

text \<open>Every provider call fails.\<close>

definition noProvider :: Providers where
  "noProvider = \<lparr> executeGeminiAnalysis = (\<lambda>p. None), callOllamaAnalysis = (\<lambda>p. None) \<rparr>"

section \<open>Chapter segmenter (src/App.tsx)\<close>

definition determineCategory :: "string \<Rightarrow> MessageCategory" where
  "determineCategory ttl =
     (let t = toLowerCase ttl
      in if t = ''same'' then REFINEMENT
         else if includesStr t ''brainstorm'' \<or> includesStr t ''idea'' then BRAINSTORM
         else if includesStr t ''decision'' \<or> includesStr t ''select'' then DECISION
         else if includesStr t ''refine'' \<or> includesStr t ''fix'' \<or> includesStr t ''edit''
                 \<or> includesStr t ''improve'' then REFINEMENT
         else if includesStr t ''context'' \<or> includesStr t ''analyze''
                 \<or> includesStr t ''greeting'' \<or> includesStr t ''start'' then CONTEXT
         else TANGENT)"

definition IGNORED_WORDS :: "string list" where
  "IGNORED_WORDS = [''hey'', ''hello'', ''hi'', ''ok'', ''okay'', ''thanks'', ''thank you'',
                    ''yes'', ''no'', ''sure'', ''start'']"

definition extractSubtopics :: "Message list \<Rightarrow> string list" where
  "extractSubtopics msgs =
     map (\<lambda>m. if length (content m) > 55 then trim (take 55 (content m)) @ ''...'' else content m)
       (take 2
         (filter (\<lambda>m. author m = USER \<and> \<not> (trim (toLowerCase (content m)) \<in> set IGNORED_WORDS)
                       \<and> length (content m) > 1)
            msgs))"

text \<open>
  The callback given to \<open>setChapters\<close> when the classifier has answered \<open>result\<close>. It
  closes over the batch \<open>bufferMessages\<close>, its size \<open>newMessagesCount\<close> and the thread
  \<open>validMessages\<close> of the evaluation that sent the batch; \<open>prev\<close> is the chapter list at
  the time of the answer and \<open>now\<close> the reading of \<open>Date.now()\<close>.
\<close>

definition foldIn ::
  "int \<Rightarrow> Message list \<Rightarrow> nat \<Rightarrow> Message list \<Rightarrow> string \<Rightarrow> Chapter list \<Rightarrow> Chapter list" where
  "foldIn now bufferMessages newMessagesCount validMessages result prev =
     (case bufferMessages of
        [] \<Rightarrow> prev
      | startMsg # rest \<Rightarrow>
          let manualChapterIndex = findIndex (\<lambda>c. startMessageId c = msg_id startMsg) prev
          in if manualChapterIndex \<noteq> -1 then
               (let existing = prev ! nat manualChapterIndex
                in prev[nat manualChapterIndex :=
                     existing\<lparr> title := (if result = ''SAME'' then title existing else result),
                               messageCount := messageCount existing + newMessagesCount,
                               subtopics := take 12 (dedupe (subtopics existing
                                              @ extractSubtopics bufferMessages)) \<rparr>])
             else
               let lastRelevantChapIndex =
                     (if result = ''SAME'' \<and> length prev > 0
                      then findLastIndex (\<lambda>c. startMessageId c \<in> set (map msg_id validMessages)) prev
                      else -1)
               in if lastRelevantChapIndex \<noteq> -1 then
                    (let lastChap = prev ! nat lastRelevantChapIndex
                     in prev[nat lastRelevantChapIndex :=
                          lastChap\<lparr> messageCount := messageCount lastChap + newMessagesCount,
                                    subtopics := take 12 (dedupe (subtopics lastChap
                                                   @ extractSubtopics bufferMessages)) \<rparr>])
                  else
                    prev @ [\<lparr> chap_id = ''chap-'' @ showInt now,
                              title = (if result = ''SAME'' then ''Greeting'' else result),
                              chap_category = determineCategory result,
                              startMessageId = msg_id startMsg,
                              messageCount = (if newMessagesCount = 0 then 1 else newMessagesCount),
                              subtopics = extractSubtopics bufferMessages \<rparr>])"

text \<open>
  What an evaluation of the new-content effect hands to the classifier and to the
  fold-in: the prior topic, the batch as role and content pairs, and the values the
  callback closes over.
\<close>

record Dispatch =
  currentTopic :: "string option"
  contextBlock :: "(Role \<times> string) list"
  bufferMessages :: "Message list"
  newMessagesCount :: nat
  validMessages :: "Message list"


section \<open>Handcrafted stores\<close>

definition mkMessage :: "string \<Rightarrow> string option \<Rightarrow> int \<Rightarrow> Message" where
  "mkMessage i p t = \<lparr> msg_id = i, parentId = p, author = USER, content = [], timestamp = t,
                      category = None, branchId = None \<rparr>"

text \<open>root \<open>\<rightarrow>\<close> A \<open>\<rightarrow>\<close> B, and B has the children C (t = 10) and D (t = 20).\<close>

definition treeABCD :: "int \<Rightarrow> int \<Rightarrow> int \<Rightarrow> Message list" where
  "treeABCD t0 ta tb =
     [mkMessage ''root'' None t0, mkMessage ''A'' (Some ''root'') ta, mkMessage ''B'' (Some ''A'') tb,
      mkMessage ''C'' (Some ''B'') 10, mkMessage ''D'' (Some ''B'') 20]"

text \<open>The same tree, where C has the children E (t = 30) and F (t = 40).\<close>

definition treeABCDEF :: "Message list" where
  "treeABCDEF = treeABCD 0 1 2 @ [mkMessage ''E'' (Some ''C'') 30, mkMessage ''F'' (Some ''C'') 40]"

text \<open>A corrupted store: two messages that are each other's parent.\<close>

definition cyclicStore :: "Message list" where
  "cyclicStore = [mkMessage ''a'' (Some ''b'') 1, mkMessage ''b'' (Some ''a'') 2]"

text \<open>The tree of \<open>treeABCD 0 1 2\<close> stored in another order: D before C, the root last.\<close>

definition treeDCBA :: "Message list" where
  "treeDCBA = [mkMessage ''D'' (Some ''B'') 20, mkMessage ''C'' (Some ''B'') 10,
               mkMessage ''B'' (Some ''A'') 2, mkMessage ''A'' (Some ''root'') 1,
               mkMessage ''root'' None 0]"

text \<open>
  A store with a parent-link cycle that a later child leads out of: a and b are each
  other's parent, and b has the further child c with the greatest timestamp.
\<close>

definition cycleWithExit :: "Message list" where
  "cycleWithExit = [mkMessage ''a'' (Some ''b'') 1, mkMessage ''b'' (Some ''a'') 2,
                    mkMessage ''c'' (Some ''b'') 3]"

text \<open>States and clock readings for the submit handler.\<close>

definition clock0 :: SendClock where
  "clock0 = \<lparr> t_msgId = 1700, t_msgTimestamp = 1700, t_branchId = 1700, t_chapId = 1701,
              t_respId = 1701, t_respTimestamp = 1701 \<rparr>"

definition draftAtLeaf :: AppState where
  "draftAtLeaf = \<lparr> activeBranchHeadId = ''A'', isDraftingBranch = True, swipeDirection = Right,
      messages = [mkMessage ''root'' None 0, mkMessage ''A'' (Some ''root'') 1],
      chapters = [], inputText = ''hi'', isStreaming = False, showCanvasTip = False \<rparr>"

definition typedAt :: "string \<Rightarrow> AppState" where
  "typedAt headId = \<lparr> activeBranchHeadId = headId, isDraftingBranch = False, swipeDirection = Right,
      messages = treeABCD 0 1 2,
      chapters = [], inputText = ''hi'', isStreaming = False, showCanvasTip = False \<rparr>"

text \<open>A chapter of another branch, and two consecutive batches of one thread.\<close>

definition otherBranchChapter :: Chapter where
  "otherBranchChapter = \<lparr> chap_id = ''chap-1'', title = ''Cats'', chap_category = TANGENT,
      startMessageId = ''msg-1'', messageCount = 2, subtopics = [] \<rparr>"

definition batchHi :: "Message list" where
  "batchHi = [\<lparr> msg_id = ''msg-9'', parentId = Some ''root'', author = USER, content = ''Hi'',
                timestamp = 9, category = Some REFINEMENT, branchId = None \<rparr>,
              \<lparr> msg_id = ''resp-9'', parentId = Some ''msg-9'', author = ASSISTANT, content = ''Hello'',
                timestamp = 10, category = None, branchId = None \<rparr>]"




definition navState0 :: NavState where
  "navState0 = \<lparr> activeBranchHeadId = ''D'', isDraftingBranch = False, swipeDirection = Right \<rparr>"

section \<open>Properties of the thread resolver\<close>

lemma sortAsc_set [simp]: "set (sortAsc xs) = set xs"
  by (simp add: sortAsc_def)

lemma sortAsc_length [simp]: "length (sortAsc xs) = length xs"
  by (simp add: sortAsc_def)

lemma sortAsc_Nil [simp]: "sortAsc xs = [] \<longleftrightarrow> xs = []"
  using sortAsc_length[of xs] by (metis length_0_conv)

lemma sortDesc_set [simp]: "set (sortDesc xs) = set xs"
  by (simp add: sortDesc_def)

lemma sortDesc_length [simp]: "length (sortDesc xs) = length xs"
  by (simp add: sortDesc_def)

lemma findIndex_miss: "\<forall>x \<in> set xs. \<not> P x \<Longrightarrow> findIndex P xs = -1"
  by (induction xs) (auto simp: Let_def)

lemma findIndex_neg: "findIndex P xs < 0 \<longleftrightarrow> (\<forall>x \<in> set xs. \<not> P x)"
  by (induction xs) (auto simp: Let_def)

lemma findIndex_upper: "findIndex P xs < int (length xs)"
  by (induction xs) (auto simp: Let_def)

lemma findIndex_hit: "\<exists>x \<in> set xs. P x \<Longrightarrow> 0 \<le> findIndex P xs \<and> findIndex P xs < int (length xs)"
  using findIndex_neg[of P xs] findIndex_upper[of P xs] by auto

lemma findIndex_append_hit:
  "\<exists>x \<in> set xs. P x \<Longrightarrow> findIndex P (xs @ ys) = findIndex P xs"
proof (induction xs)
  case Nil then show ?case by simp
next
  case (Cons a xs)
  show ?case
  proof (cases "P a")
    case True then show ?thesis by simp
  next
    case False
    with Cons.prems have ex: "\<exists>x \<in> set xs. P x" by auto
    from Cons.IH[OF ex] False show ?thesis by simp
  qed
qed

lemma findIndex_append_last:
  "\<forall>x \<in> set xs. \<not> P x \<Longrightarrow> P y \<Longrightarrow> findIndex P (xs @ [y]) = int (length xs)"
  by (induction xs) (auto simp: Let_def)

lemma hideGhost_no_ghost: "hideGhost s = Some m \<Longrightarrow> msg_id m \<noteq> GHOST_ID"
  by (auto simp: hideGhost_def split: option.splits if_splits)

lemma annotate_entry [simp]: "entry (annotate msgs h d now msg) = msg"
  by (simp add: annotate_def Let_def)

lemma annotate_no_ghost:
  assumes "info (annotate msgs h d now msg) = Some i"
  shows "(\<forall>s. prevSibling i = Some s \<longrightarrow> msg_id s \<noteq> GHOST_ID) \<and>
         (\<forall>s. nextSibling i = Some s \<longrightarrow> msg_id s \<noteq> GHOST_ID)"
  using assms
  by (auto simp: annotate_def Let_def dest: hideGhost_no_ghost split: if_splits)

lemma walk_subset:
  "set (fst (walk msgs currentId loopSafety thread)) \<subseteq> set thread \<union> set msgs"
proof (induction msgs currentId loopSafety thread rule: walk.induct)
  case (1 msgs currentId loopSafety thread)
  show ?case
  proof (cases currentId)
    case None
    then show ?thesis by (simp add: walk.simps)
  next
    case (Some cid)
    show ?thesis
    proof (cases "cid \<noteq> [] \<and> loopSafety < MAX_DEPTH")
      case False
      with Some show ?thesis by (auto simp add: walk.simps)
    next
      case True
      show ?thesis
      proof (cases "find (\<lambda>m. msg_id m = cid) msgs")
        case None
        with \<open>currentId = Some cid\<close> True show ?thesis by (auto simp add: walk.simps)
      next
        case (Some msg)
        then have mem: "msg \<in> set msgs"
          by (auto simp: find_Some_iff)
        from "1.IH"[OF \<open>currentId = Some cid\<close> True Some] mem
        have "set (fst (walk msgs (parentId msg) (loopSafety + 1)
                 (if msg_id msg \<noteq> ROOT_ID then msg # thread else thread))) \<subseteq> set thread \<union> set msgs"
          by (auto split: if_splits)
        with \<open>currentId = Some cid\<close> True Some show ?thesis
          by (simp add: walk.simps[of msgs "Some cid"])
      qed
    qed
  qed
qed

lemma annotate_ghost:
  assumes h: "h \<noteq> []" and ng: "\<forall>m \<in> set msgs. msg_id m \<noteq> GHOST_ID"
  shows "annotate msgs h True now (ghostMsg h now) =
     \<lparr> entry = ghostMsg h now,
       info = Some \<lparr> siblingCount = length (sortAsc (filter (\<lambda>m. parentId m = Some h) msgs)) + 1,
                     siblingIndex = int (length (sortAsc (filter (\<lambda>m. parentId m = Some h) msgs))) + 1,
                     prevSibling = (if sortAsc (filter (\<lambda>m. parentId m = Some h) msgs) = [] then None
                                    else Some (last (sortAsc (filter (\<lambda>m. parentId m = Some h) msgs)))),
                     nextSibling = None \<rparr> \<rparr>"
proof -
  let ?real = "sortAsc (filter (\<lambda>m. parentId m = Some h) msgs)"
  let ?g = "ghostMsg h now"
  have nr: "\<forall>x \<in> set ?real. \<not> msg_id x = msg_id ?g"
    using ng by (auto simp: ghostMsg_def)
  have idx: "findIndex (\<lambda>s. msg_id s = msg_id ?g) (?real @ [?g]) = int (length ?real)"
    by (rule findIndex_append_last[OF nr]) simp
  have prev: "hideGhost (elemAt (?real @ [?g]) (int (length ?real) - 1)) =
              (if ?real = [] then None else Some (last ?real))"
  proof (cases "?real = []")
    case True
    then show ?thesis by (simp add: elemAt_def hideGhost_def)
  next
    case False
    then have "elemAt (?real @ [?g]) (int (length ?real) - 1) = Some (last ?real)"
      by (auto simp: elemAt_def nth_append last_conv_nth nat_diff_distrib')
    moreover have "last ?real \<in> set ?real" using False by (rule last_in_set)
    with nr have "msg_id (last ?real) \<noteq> GHOST_ID" by (auto simp: ghostMsg_def)
    ultimately show ?thesis using False by (simp add: hideGhost_def)
  qed
  have nxt: "hideGhost (elemAt (?real @ [?g]) (int (length ?real) + 1)) = None"
    by (simp add: elemAt_def hideGhost_def)
  have t: "truthy (parentId ?g)" using h by (simp add: truthy_def ghostMsg_def)
  have gid: "msg_id ?g = GHOST_ID" by (simp add: ghostMsg_def)
  show ?thesis
    unfolding annotate_def Let_def using t gid idx prev nxt by simp
qed

lemma annotate_fork_child:
  assumes h: "h \<noteq> []" and ng: "\<forall>m \<in> set msgs. msg_id m \<noteq> GHOST_ID"
    and mem: "msg \<in> set msgs" and par: "parentId msg = Some h"
  shows "\<exists>i. info (annotate msgs h True now msg) = Some i \<and>
              siblingCount i = length (sortAsc (filter (\<lambda>m. parentId m = Some h) msgs)) + 1 \<and>
              1 \<le> siblingIndex i \<and>
              siblingIndex i \<le> int (length (sortAsc (filter (\<lambda>m. parentId m = Some h) msgs)))"
proof -
  let ?real = "sortAsc (filter (\<lambda>m. parentId m = Some h) msgs)"
  let ?g = "ghostMsg h now"
  have t: "truthy (parentId msg)" using h par by (simp add: truthy_def)
  have nog: "\<not> (\<exists>s \<in> set ?real. msg_id s = GHOST_ID)" using ng by auto
  have idm: "msg_id msg \<noteq> GHOST_ID" using ng mem by simp
  have ex: "\<exists>x \<in> set ?real. msg_id x = msg_id msg" using mem par by auto
  have idx: "findIndex (\<lambda>s. msg_id s = msg_id msg) (?real @ [?g]) = findIndex (\<lambda>s. msg_id s = msg_id msg) ?real"
    by (rule findIndex_append_hit[OF ex])
  note rng = findIndex_hit[OF ex]
  show ?thesis
    unfolding annotate_def Let_def using t nog idm idx rng par by simp
qed

lemma sortDesc_Nil [simp]: "sortDesc xs = [] \<longleftrightarrow> xs = []"
  using sortDesc_length[of xs] by (metis length_0_conv)

lemma walk_bound:
  "loopSafety \<le> MAX_DEPTH \<Longrightarrow> walk msgs currentId loopSafety thread = (t, k) \<Longrightarrow>
     loopSafety \<le> k \<and> k \<le> MAX_DEPTH \<and> length t + loopSafety \<le> length thread + k"
proof (induction msgs currentId loopSafety thread rule: walk.induct)
  case (1 msgs currentId loopSafety thread)
  show ?case
  proof (cases currentId)
    case None
    with "1.prems" show ?thesis by (simp add: walk.simps)
  next
    case (Some cid)
    show ?thesis
    proof (cases "cid \<noteq> [] \<and> loopSafety < MAX_DEPTH")
      case False
      with Some "1.prems" show ?thesis by (auto simp add: walk.simps)
    next
      case True
      show ?thesis
      proof (cases "find (\<lambda>m. msg_id m = cid) msgs")
        case None
        with Some True "1.prems" show ?thesis by (auto simp add: walk.simps)
      next
        case (Some msg)
        from \<open>currentId = Some cid\<close> True Some "1.prems"
        have w: "walk msgs (parentId msg) (loopSafety + 1)
                   (if msg_id msg \<noteq> ROOT_ID then msg # thread else thread) = (t, k)"
          by (simp add: walk.simps)
        from True have le: "loopSafety + 1 \<le> MAX_DEPTH" by simp
        from "1.IH"[OF \<open>currentId = Some cid\<close> True Some le w]
        show ?thesis by (auto split: if_splits)
      qed
    qed
  qed
qed

lemma walk_cyclicStore:
  "n \<le> MAX_DEPTH \<Longrightarrow> cid = ''a'' \<or> cid = ''b'' \<Longrightarrow>
     snd (walk cyclicStore (Some cid) n acc) = MAX_DEPTH"
proof (induction "MAX_DEPTH - n" arbitrary: n cid acc)
  case 0
  then have "n = MAX_DEPTH" by simp
  then show ?case by (simp add: walk.simps)
next
  case (Suc d)
  then have lt: "n < MAX_DEPTH" and d: "d = MAX_DEPTH - (n + 1)" and le: "n + 1 \<le> MAX_DEPTH"
    by simp_all
  from Suc.prems(2) show ?case
  proof
    assume c: "cid = ''a''"
    have "snd (walk cyclicStore (Some ''b'') (n + 1) (mkMessage ''a'' (Some ''b'') 1 # acc)) = MAX_DEPTH"
      by (rule Suc.hyps(1)[OF d le]) simp
    moreover have "walk cyclicStore (Some ''a'') n acc =
        walk cyclicStore (Some ''b'') (n + 1) (mkMessage ''a'' (Some ''b'') 1 # acc)"
      using lt by (subst walk.simps) (simp add: cyclicStore_def mkMessage_def ROOT_ID_def)
    ultimately show ?thesis using c by simp
  next
    assume c: "cid = ''b''"
    have "snd (walk cyclicStore (Some ''a'') (n + 1) (mkMessage ''b'' (Some ''a'') 2 # acc)) = MAX_DEPTH"
      by (rule Suc.hyps(1)[OF d le]) simp
    moreover have "walk cyclicStore (Some ''b'') n acc =
        walk cyclicStore (Some ''a'') (n + 1) (mkMessage ''b'' (Some ''a'') 2 # acc)"
      using lt by (subst walk.simps) (simp add: cyclicStore_def mkMessage_def ROOT_ID_def)
    ultimately show ?thesis using c by simp
  qed
qed

lemma walk_treeABCD:
  "walk (treeABCD t0 ta tb) (Some ''D'') 0 [] =
     ([mkMessage ''A'' (Some ''root'') ta, mkMessage ''B'' (Some ''A'') tb,
       mkMessage ''D'' (Some ''B'') 20], 4)"
  by (simp add: walk.simps treeABCD_def mkMessage_def MAX_DEPTH_def ROOT_ID_def)

lemma find_unique:
  assumes "x \<in> set xs" "P x" "\<forall>y \<in> set xs. P y \<longrightarrow> y = x"
  shows "find P xs = Some x"
proof -
  from assms(1,2) have "find P xs \<noteq> None" by (auto simp: find_None_iff)
  then obtain y where y: "find P xs = Some y" by auto
  then have "P y" "y \<in> set xs" by (auto simp: find_Some_iff)
  with assms(3) y show ?thesis by auto
qed

lemma distinct_singleton: "distinct xs \<Longrightarrow> set xs = {a} \<Longrightarrow> xs = [a]"
proof -
  assume d: "distinct xs" and s: "set xs = {a}"
  then have "length xs = 1" using distinct_card[OF d] by simp
  then obtain x where "xs = [x]" by (cases xs) auto
  with s show ?thesis by simp
qed

lemma sortAsc_pair:
  assumes d: "distinct xs" and s: "set xs = {c, e}" and lt: "timestamp c < timestamp e"
  shows "sortAsc xs = [c, e]"
proof -
  from lt have ne: "c \<noteq> e" by auto
  then have "length xs = 2" using distinct_card[OF d] s by simp
  then obtain x y where xs: "xs = [x, y]"
    by (cases xs; cases "tl xs") auto
  with s ne have "(x = c \<and> y = e) \<or> (x = e \<and> y = c)" by (auto simp: doubleton_eq_iff)
  with xs lt show ?thesis by (auto simp: sortAsc_def)
qed

text \<open>
  C3. For the tree root \<open>\<rightarrow>\<close> A \<open>\<rightarrow>\<close> B with B's children C (timestamp 10) and D (timestamp 20),
  in whatever order the five messages are stored and whatever the timestamps of root, A and
  B: the thread resolved for the head D is exactly A, B, D (the root is left out), and D is
  annotated with siblingCount 2, siblingIndex 2, prevSibling C and no nextSibling.
\<close>

theorem thread_reconstruction_ABD:
  assumes d: "distinct msgs" and s: "set msgs = set (treeABCD t0 ta tb)"
  shows "currentThread msgs ''D'' False now =
     [ \<lparr> entry = mkMessage ''A'' (Some ''root'') ta,
         info = Some \<lparr> siblingCount = 1, siblingIndex = 1, prevSibling = None, nextSibling = None \<rparr> \<rparr>,
       \<lparr> entry = mkMessage ''B'' (Some ''A'') tb,
         info = Some \<lparr> siblingCount = 1, siblingIndex = 1, prevSibling = None, nextSibling = None \<rparr> \<rparr>,
       \<lparr> entry = mkMessage ''D'' (Some ''B'') 20,
         info = Some \<lparr> siblingCount = 2, siblingIndex = 2,
                       prevSibling = Some (mkMessage ''C'' (Some ''B'') 10),
                       nextSibling = None \<rparr> \<rparr> ]"
proof -
  define R where "R = mkMessage ''root'' None t0"
  define A where "A = mkMessage ''A'' (Some ''root'') ta"
  define B where "B = mkMessage ''B'' (Some ''A'') tb"
  define C where "C = mkMessage ''C'' (Some ''B'') 10"
  define D where "D = mkMessage ''D'' (Some ''B'') 20"
  have S: "set msgs = {R, A, B, C, D}"
    by (simp add: s treeABCD_def R_def A_def B_def C_def D_def)
  have ids: "msg_id R = ''root''" "msg_id A = ''A''" "msg_id B = ''B''" "msg_id C = ''C''" "msg_id D = ''D''"
    by (simp_all add: R_def A_def B_def C_def D_def mkMessage_def)
  have pars: "parentId R = None" "parentId A = Some ''root''" "parentId B = Some ''A''"
     "parentId C = Some ''B''" "parentId D = Some ''B''"
    by (simp_all add: R_def A_def B_def C_def D_def mkMessage_def)
  have ts: "timestamp C = 10" "timestamp D = 20" by (simp_all add: C_def D_def mkMessage_def)
  have fD: "find (\<lambda>m. msg_id m = ''D'') msgs = Some D"
    by (rule find_unique) (auto simp: S ids)
  have fB: "find (\<lambda>m. msg_id m = ''B'') msgs = Some B"
    by (rule find_unique) (auto simp: S ids)
  have fA: "find (\<lambda>m. msg_id m = ''A'') msgs = Some A"
    by (rule find_unique) (auto simp: S ids)
  have fR: "find (\<lambda>m. msg_id m = ''root'') msgs = Some R"
    by (rule find_unique) (auto simp: S ids)
  have w4: "walk msgs None n [A, B, D] = ([A, B, D], n)" for n by (simp add: walk.simps)
  have w3: "walk msgs (Some ''root'') n [A, B, D] = ([A, B, D], n + 1)" if "n < MAX_DEPTH" for n
    by (subst walk.simps) (simp add: that fR pars ids ROOT_ID_def w4)
  have w2: "walk msgs (Some ''A'') n [B, D] = ([A, B, D], n + 2)" if "n + 1 < MAX_DEPTH" for n
    using that by (subst walk.simps) (simp add: fA pars ids ROOT_ID_def w3)
  have w1: "walk msgs (Some ''B'') n [D] = ([A, B, D], n + 3)" if "n + 2 < MAX_DEPTH" for n
    using that by (subst walk.simps) (simp add: fB pars ids ROOT_ID_def w2)
  have w0: "walk msgs (Some ''D'') 0 [] = ([A, B, D], 4)"
    by (subst walk.simps) (simp add: fD pars ids ROOT_ID_def w1 MAX_DEPTH_def)
  have sr: "sortAsc (filter (\<lambda>m. parentId m = Some ''root'') msgs) = [A]"
  proof -
    have "set (filter (\<lambda>m. parentId m = Some ''root'') msgs) = {A}"
      by (auto simp: S pars)
    from distinct_singleton[OF distinct_filter[OF d] this] show ?thesis by (simp add: sortAsc_def)
  qed
  have sa: "sortAsc (filter (\<lambda>m. parentId m = Some ''A'') msgs) = [B]"
  proof -
    have "set (filter (\<lambda>m. parentId m = Some ''A'') msgs) = {B}"
      by (auto simp: S pars)
    from distinct_singleton[OF distinct_filter[OF d] this] show ?thesis by (simp add: sortAsc_def)
  qed
  have sb: "sortAsc (filter (\<lambda>m. parentId m = Some ''B'') msgs) = [C, D]"
  proof -
    have "set (filter (\<lambda>m. parentId m = Some ''B'') msgs) = {C, D}"
      by (auto simp: S pars)
    from sortAsc_pair[OF distinct_filter[OF d] this] ts show ?thesis by simp
  qed
  have aA: "annotate msgs ''D'' False now A =
      \<lparr> entry = A, info = Some \<lparr> siblingCount = 1, siblingIndex = 1, prevSibling = None, nextSibling = None \<rparr> \<rparr>"
    unfolding annotate_def Let_def pars sr
    by (simp add: truthy_def ids GHOST_ID_def elemAt_def hideGhost_def)
  have aB: "annotate msgs ''D'' False now B =
      \<lparr> entry = B, info = Some \<lparr> siblingCount = 1, siblingIndex = 1, prevSibling = None, nextSibling = None \<rparr> \<rparr>"
    unfolding annotate_def Let_def pars sa
    by (simp add: truthy_def ids GHOST_ID_def elemAt_def hideGhost_def)
  have aD: "annotate msgs ''D'' False now D =
      \<lparr> entry = D, info = Some \<lparr> siblingCount = 2, siblingIndex = 2, prevSibling = Some C, nextSibling = None \<rparr> \<rparr>"
    unfolding annotate_def Let_def pars sb
    by (simp add: truthy_def ids GHOST_ID_def elemAt_def hideGhost_def)
  have "currentThread msgs ''D'' False now = [annotate msgs ''D'' False now A,
      annotate msgs ''D'' False now B, annotate msgs ''D'' False now D]"
    by (simp add: currentThread_def w0)
  then show ?thesis unfolding aA aB aD by (simp add: A_def B_def C_def D_def)
qed

theorem thread_reconstruction_ABD_witness:
  "distinct treeDCBA \<and> set treeDCBA = set (treeABCD 0 1 2) \<and>
   map (msg_id \<circ> entry) (currentThread treeDCBA ''D'' False 99) = [''A'', ''B'', ''D''] \<and>
   info (last (currentThread treeDCBA ''D'' False 99)) =
     Some \<lparr> siblingCount = 2, siblingIndex = 2,
            prevSibling = Some (mkMessage ''C'' (Some ''B'') 10), nextSibling = None \<rparr>"
proof -
  have d: "distinct treeDCBA" by (simp add: treeDCBA_def mkMessage_def)
  have s: "set treeDCBA = set (treeABCD 0 1 2)"
    by (auto simp: treeDCBA_def treeABCD_def)
  from thread_reconstruction_ABD[OF d s, of 99] d s show ?thesis by (simp add: mkMessage_def)
qed

text \<open>
  C8. The walk from any head over any message collection, cyclic or dangling parent links
  included, is a total function (its termination is proved with the definition), and it
  makes at most 5000 hops and returns at most 5000 messages; on the two-message cycle it
  stops after exactly 5000 hops instead of running forever.
\<close>

theorem walk_terminates_within_5000_hops:
  "snd (walk msgs (Some headId) 0 []) \<le> 5000 \<and>
   length (fst (walk msgs (Some headId) 0 [])) \<le> 5000 \<and>
   length (currentThread msgs headId False now) \<le> 5000 \<and>
   snd (walk cyclicStore (Some ''a'') 0 []) = 5000"
proof -
  obtain t k where w: "walk msgs (Some headId) 0 [] = (t, k)"
    by (cases "walk msgs (Some headId) 0 []")
  from walk_bound[OF _ w] have "k \<le> MAX_DEPTH \<and> length t \<le> k" by simp
  moreover have "snd (walk cyclicStore (Some ''a'') 0 []) = MAX_DEPTH"
    by (rule walk_cyclicStore) simp_all
  ultimately show ?thesis using w by (simp add: MAX_DEPTH_def currentThread_def)
qed

theorem walk_terminates_within_5000_hops_witness:
  "snd (walk (treeABCD 0 1 2) (Some ''D'') 0 []) \<le> 5000 \<and>
   snd (walk (treeABCD 0 1 2) (Some ''D'') 0 []) = 4 \<and>
   length (fst (walk cyclicStore (Some ''b'') 0 [])) \<le> 5000 \<and>
   snd (walk cyclicStore (Some ''a'') 0 []) = 5000"
  using walk_terminates_within_5000_hops[of "treeABCD 0 1 2" "''D''" 0]
    walk_terminates_within_5000_hops[of cyclicStore "''b''" 0]
  by (simp add: walk_treeABCD)

text \<open>
  C9. While a draft is in progress, for a non-empty head id and a store that holds no
  message with the placeholder's id: the resolved thread ends with the placeholder; the
  placeholder's sibling group is all real children of the fork point (the active head)
  followed by itself, so its siblingCount and its siblingIndex are both the number of real
  children plus one, its prevSibling is the last real child and it has no nextSibling; no
  annotation in the thread reports the placeholder as prevSibling or nextSibling; and a
  real message of the thread that is a child of the fork point counts the placeholder in
  its group and stands before it.
\<close>

theorem draft_placeholder_last_sibling:
  assumes h: "head \<noteq> []" and ng: "\<forall>m \<in> set msgs. msg_id m \<noteq> GHOST_ID"
  shows "currentThread msgs head True now \<noteq> [] \<and>
     last (currentThread msgs head True now) =
       \<lparr> entry = ghostMsg head now,
         info = Some \<lparr> siblingCount = length (sortAsc (filter (\<lambda>m. parentId m = Some head) msgs)) + 1,
                       siblingIndex = int (length (sortAsc (filter (\<lambda>m. parentId m = Some head) msgs))) + 1,
                       prevSibling = (if sortAsc (filter (\<lambda>m. parentId m = Some head) msgs) = [] then None
                                      else Some (last (sortAsc (filter (\<lambda>m. parentId m = Some head) msgs)))),
                       nextSibling = None \<rparr> \<rparr> \<and>
     (\<forall>e \<in> set (currentThread msgs head True now). \<forall>i. info e = Some i \<longrightarrow>
        (\<forall>s. prevSibling i = Some s \<longrightarrow> msg_id s \<noteq> GHOST_ID) \<and>
        (\<forall>s. nextSibling i = Some s \<longrightarrow> msg_id s \<noteq> GHOST_ID)) \<and>
     (\<forall>e \<in> set (butlast (currentThread msgs head True now)).
        msg_id (entry e) \<noteq> GHOST_ID \<and>
        (parentId (entry e) = Some head \<longrightarrow>
          (\<exists>i. info e = Some i \<and>
             siblingCount i = length (sortAsc (filter (\<lambda>m. parentId m = Some head) msgs)) + 1 \<and>
             1 \<le> siblingIndex i \<and>
             siblingIndex i \<le> int (length (sortAsc (filter (\<lambda>m. parentId m = Some head) msgs))))))"
proof -
  let ?w = "fst (walk msgs (Some head) 0 [])"
  let ?ann = "annotate msgs head True now"
  have ct: "currentThread msgs head True now = map ?ann ?w @ [?ann (ghostMsg head now)]"
    by (simp add: currentThread_def Let_def)
  have wsub: "set ?w \<subseteq> set msgs" using walk_subset[of msgs "Some head" 0 "[]"] by simp
  have c1: "currentThread msgs head True now \<noteq> []" by (simp add: ct)
  have c2: "last (currentThread msgs head True now) = ?ann (ghostMsg head now)" by (simp add: ct)
  have c3: "\<forall>e \<in> set (currentThread msgs head True now). \<forall>i. info e = Some i \<longrightarrow>
        (\<forall>s. prevSibling i = Some s \<longrightarrow> msg_id s \<noteq> GHOST_ID) \<and>
        (\<forall>s. nextSibling i = Some s \<longrightarrow> msg_id s \<noteq> GHOST_ID)"
    unfolding ct using annotate_no_ghost by auto
  have bl: "butlast (currentThread msgs head True now) = map ?ann ?w" by (simp add: ct)
  have c4: "\<forall>e \<in> set (butlast (currentThread msgs head True now)).
        msg_id (entry e) \<noteq> GHOST_ID \<and>
        (parentId (entry e) = Some head \<longrightarrow>
          (\<exists>i. info e = Some i \<and>
             siblingCount i = length (sortAsc (filter (\<lambda>m. parentId m = Some head) msgs)) + 1 \<and>
             1 \<le> siblingIndex i \<and>
             siblingIndex i \<le> int (length (sortAsc (filter (\<lambda>m. parentId m = Some head) msgs)))))"
  proof
    fix e assume "e \<in> set (butlast (currentThread msgs head True now))"
    then obtain msg where e: "e = ?ann msg" and m: "msg \<in> set ?w" unfolding bl by auto
    from m wsub have mem: "msg \<in> set msgs" by auto
    with ng have "msg_id (entry e) \<noteq> GHOST_ID" by (simp add: e)
    moreover have "parentId (entry e) = Some head \<longrightarrow>
          (\<exists>i. info e = Some i \<and>
             siblingCount i = length (sortAsc (filter (\<lambda>m. parentId m = Some head) msgs)) + 1 \<and>
             1 \<le> siblingIndex i \<and>
             siblingIndex i \<le> int (length (sortAsc (filter (\<lambda>m. parentId m = Some head) msgs))))"
      using annotate_fork_child[OF h ng mem] by (simp add: e)
    ultimately show "msg_id (entry e) \<noteq> GHOST_ID \<and>
        (parentId (entry e) = Some head \<longrightarrow>
          (\<exists>i. info e = Some i \<and>
             siblingCount i = length (sortAsc (filter (\<lambda>m. parentId m = Some head) msgs)) + 1 \<and>
             1 \<le> siblingIndex i \<and>
             siblingIndex i \<le> int (length (sortAsc (filter (\<lambda>m. parentId m = Some head) msgs)))))"
      by blast
  qed
  from c1 c2[unfolded annotate_ghost[OF h ng]] c3 c4 show ?thesis by blast
qed


theorem draft_placeholder_last_sibling_witness:
  "''B'' \<noteq> [] \<and> list_all (\<lambda>m. msg_id m \<noteq> GHOST_ID) (treeABCD 0 1 2) \<and>
   map (msg_id \<circ> entry) (currentThread (treeABCD 0 1 2) ''B'' True 99) = [''A'', ''B'', GHOST_ID] \<and>
   info (last (currentThread (treeABCD 0 1 2) ''B'' True 99)) =
     Some \<lparr> siblingCount = 3, siblingIndex = 3,
            prevSibling = Some (mkMessage ''D'' (Some ''B'') 20), nextSibling = None \<rparr>"
proof -
  have ng: "\<forall>m \<in> set (treeABCD 0 1 2). msg_id m \<noteq> GHOST_ID"
    by (simp add: treeABCD_def mkMessage_def GHOST_ID_def)
  have h: "''B'' \<noteq> []" by simp
  have w: "fst (walk (treeABCD 0 1 2) (Some ''B'') 0 []) =
             [mkMessage ''A'' (Some ''root'') 1, mkMessage ''B'' (Some ''A'') 2]"
    by (simp add: walk.simps treeABCD_def mkMessage_def MAX_DEPTH_def ROOT_ID_def)
  have ids: "map (msg_id \<circ> entry) (currentThread (treeABCD 0 1 2) ''B'' True 99) = [''A'', ''B'', GHOST_ID]"
    by (simp add: currentThread_def w) (simp add: mkMessage_def ghostMsg_def)
  have real: "sortAsc (filter (\<lambda>m. parentId m = Some ''B'') (treeABCD 0 1 2)) =
                [mkMessage ''C'' (Some ''B'') 10, mkMessage ''D'' (Some ''B'') 20]"
    by (simp add: treeABCD_def mkMessage_def sortAsc_def)
  from draft_placeholder_last_sibling[OF h ng, of 99, unfolded real] ids ng
  show ?thesis by (simp add: list_all_iff)
qed

section \<open>Properties of the branch navigator\<close>

lemma sortDesc_hd_max:
  assumes "xs \<noteq> []"
  shows "hd (sortDesc xs) \<in> set xs \<and> (\<forall>y \<in> set xs. timestamp y \<le> timestamp (hd (sortDesc xs)))"
proof -
  from assms obtain z zs where ys: "sortDesc xs = z # zs"
    by (cases "sortDesc xs") simp_all
  have "sorted (map (\<lambda>m. - timestamp m) (sortDesc xs))"
    unfolding sortDesc_def by (rule sorted_sort_key)
  with ys have le: "\<forall>y \<in> set (z # zs). timestamp y \<le> timestamp z" by auto
  have "set xs = set (z # zs)" using sortDesc_set[of xs] by (simp only: ys)
  with le show ?thesis by (simp add: ys)
qed

lemma mostRecentChild_Some:
  assumes "mostRecentChild msgs p = Some c"
  shows "\<exists>m \<in> set msgs. msg_id m = c \<and> parentId m = Some p \<and>
           (\<forall>m' \<in> set msgs. parentId m' = Some p \<longrightarrow> timestamp m' \<le> timestamp m)"
proof -
  let ?ch = "filter (\<lambda>m. parentId m = Some p) msgs"
  from assms have ne: "?ch \<noteq> []" and c: "c = msg_id (hd (sortDesc ?ch))"
    by (auto simp: mostRecentChild_def Let_def split: if_splits)
  from sortDesc_hd_max[OF ne] c show ?thesis by (intro bexI[of _ "hd (sortDesc ?ch)"]) auto
qed

lemma mostRecentChild_None:
  "mostRecentChild msgs p = None \<longleftrightarrow> (\<forall>m \<in> set msgs. parentId m \<noteq> Some p)"
  by (auto simp: mostRecentChild_def Let_def filter_empty_conv)

lemma mostRecentChild_in: "mostRecentChild msgs p = Some c \<Longrightarrow> (p, c) \<in> childRel msgs"
  using mostRecentChild_Some[of msgs p c] by (auto simp: childRel_def)

lemma childRel_finite: "finite (childRel msgs)"
proof -
  have "childRel msgs \<subseteq> (\<lambda>m. (the (parentId m), msg_id m)) ` set msgs"
    by (force simp: childRel_def image_iff)
  then show ?thesis by (rule finite_subset) simp
qed

lemma descend_total:
  assumes "acyclic (childRel msgs)"
  shows "\<exists>leaf. descend msgs p = Some leaf"
proof -
  have "wf ((childRel msgs)\<inverse>)"
    using assms childRel_finite by (rule finite_acyclic_wf_converse[rotated])
  then show ?thesis
  proof (induction p rule: wf_induct_rule)
    case (less p)
    show ?case
    proof (cases "mostRecentChild msgs p")
      case None
      then show ?thesis by (simp add: descend.simps)
    next
      case (Some c)
      then have "(c, p) \<in> (childRel msgs)\<inverse>" by (simp add: mostRecentChild_in)
      from less[OF this] Some show ?thesis by (simp add: descend.simps[of msgs p])
    qed
  qed
qed

lemma descend_leaf:
  "descend msgs p = Some leaf \<Longrightarrow> mostRecentChild msgs leaf = None"
proof (rule descend.raw_induct[where P = "\<lambda>ms p y. mostRecentChild ms y = None"])
  show "descend msgs p = Some leaf" if "descend msgs p = Some leaf" using that .
next
  fix f ms p' y'
  assume IH: "\<And>ms p y. f ms p = Some y \<Longrightarrow> mostRecentChild ms y = None"
    and step: "(case mostRecentChild ms p' of None \<Rightarrow> Some p' | Some child \<Rightarrow> f ms child) = Some y'"
  show "mostRecentChild ms y' = None"
    using step IH by (cases "mostRecentChild ms p'") auto
qed

lemma descend_loops:
  assumes cl: "\<forall>p \<in> S. \<exists>q \<in> S. mostRecentChild msgs p = Some q"
  shows "\<forall>p \<in> S. descend msgs p = None"
proof -
  have "ms = msgs \<longrightarrow> p \<notin> S" if "descend ms p = Some y" for ms p y
  proof (rule descend.raw_induct[where P = "\<lambda>ms p y. ms = msgs \<longrightarrow> p \<notin> S"])
    show "descend ms p = Some y" by (rule that)
  next
    fix f ms' p' y'
    assume IH: "\<And>ms p y. f ms p = Some y \<Longrightarrow> ms = msgs \<longrightarrow> p \<notin> S"
      and step: "(case mostRecentChild ms' p' of None \<Rightarrow> Some p' | Some child \<Rightarrow> f ms' child) = Some y'"
    show "ms' = msgs \<longrightarrow> p' \<notin> S"
    proof (intro impI notI)
      assume eq: "ms' = msgs" and mem: "p' \<in> S"
      from cl mem obtain q where q: "q \<in> S" "mostRecentChild msgs p' = Some q" by blast
      with step eq have "f msgs q = Some y'" by simp
      from IH[OF this] q show False by simp
    qed
  qed
  then show ?thesis by (metis not_Some_eq)
qed

lemma computeNextIndex_mod:
  assumes "cur \<noteq> GHOST_ID" "0 \<le> i" "i < len"
  shows "computeNextIndex cur dir i len = (i + (if dir = Next then 1 else - 1)) mod len"
proof (cases dir)
  case Next
  show ?thesis
  proof (cases "i + 1 = len")
    case True
    with assms Next show ?thesis by (simp add: computeNextIndex_def)
  next
    case False
    with assms have "i + 1 < len" by simp
    with assms Next show ?thesis by (simp add: computeNextIndex_def)
  qed
next
  case Prev
  show ?thesis
  proof (cases "i = 0")
    case True
    with assms Prev show ?thesis by (simp add: computeNextIndex_def Let_def zmod_minus1)
  next
    case False
    with assms have "0 \<le> i - 1" "i - 1 < len" by simp_all
    with assms Prev show ?thesis by (simp add: computeNextIndex_def Let_def)
  qed
qed

lemma handleSwipeBranch_real:
  assumes f: "find (\<lambda>x. msg_id x = cur) msgs = Some m"
    and t: "truthy (parentId m)" and ng: "cur \<noteq> GHOST_ID"
  shows "handleSwipeBranch msgs st cur dir =
     map_option (\<lambda>p. Returned (st\<lparr> swipeDirection := (if dir = Prev then Left else Right),
                                    activeBranchHeadId := p \<rparr>))
       (descend msgs
          (msg_id (sortAsc (filter (\<lambda>x. parentId x = parentId m) msgs) !
             nat ((findIndex (\<lambda>s. msg_id s = cur) (sortAsc (filter (\<lambda>x. parentId x = parentId m) msgs))
                    + (if dir = Next then 1 else - 1))
                  mod int (length (sortAsc (filter (\<lambda>x. parentId x = parentId m) msgs)))))))"
proof -
  let ?sib = "sortAsc (filter (\<lambda>x. parentId x = parentId m) msgs)"
  let ?i = "findIndex (\<lambda>s. msg_id s = cur) ?sib"
  let ?len = "int (length ?sib)"
  from f have mem: "m \<in> set msgs" and mid: "msg_id m = cur" by (auto simp: find_Some_iff)
  then have ex: "\<exists>x \<in> set ?sib. msg_id x = cur" by auto
  from findIndex_hit[OF ex] have rng: "0 \<le> ?i" "?i < ?len" by simp_all
  then have pos: "0 < ?len" by linarith
  note nx = computeNextIndex_mod[OF ng rng, of dir]
  have r2: "0 \<le> (?i + (if dir = Next then 1 else - 1)) mod ?len"
           "(?i + (if dir = Next then 1 else - 1)) mod ?len < ?len"
    using pos by simp_all
  have el: "elemAt ?sib (computeNextIndex cur dir ?i ?len) =
            Some (?sib ! nat ((?i + (if dir = Next then 1 else - 1)) mod ?len))"
    unfolding nx elemAt_def using r2 by simp
  have ne: "?i \<noteq> - 1" using rng by simp
  show ?thesis
    unfolding handleSwipeBranch_def Let_def
    using f t ng ne el by (cases "descend msgs (msg_id (?sib ! nat ((?i + (if dir = Next then 1 else - 1)) mod ?len)))") simp_all
qed

lemma descend_C: "descend treeABCDEF ''C'' = Some ''F''"
  by (simp add: descend.simps mostRecentChild_def treeABCDEF_def treeABCD_def mkMessage_def sortDesc_def)

lemma descend_D: "descend treeABCDEF ''D'' = Some ''D''"
  by (simp add: descend.simps mostRecentChild_def treeABCDEF_def treeABCD_def mkMessage_def sortDesc_def)

lemma siblings_B:
  "sortAsc (filter (\<lambda>x. parentId x = Some ''B'') treeABCDEF) =
     [mkMessage ''C'' (Some ''B'') 10, mkMessage ''D'' (Some ''B'') 20]"
  by (simp add: treeABCDEF_def treeABCD_def mkMessage_def sortAsc_def)

lemma find_D: "find (\<lambda>x. msg_id x = ''D'') treeABCDEF = Some (mkMessage ''D'' (Some ''B'') 20)"
  by (simp add: treeABCDEF_def treeABCD_def mkMessage_def)

lemma find_C: "find (\<lambda>x. msg_id x = ''C'') treeABCDEF = Some (mkMessage ''C'' (Some ''B'') 10)"
  by (simp add: treeABCDEF_def treeABCD_def mkMessage_def)

lemma swipe_D_next:
  "handleSwipeBranch treeABCDEF st ''D'' Next =
     Some (Returned (st\<lparr> swipeDirection := Right, activeBranchHeadId := ''F'' \<rparr>))"
proof -
  have p: "parentId (mkMessage ''D'' (Some ''B'') 20) = Some ''B''" by (simp add: mkMessage_def)
  have "truthy (parentId (mkMessage ''D'' (Some ''B'') 20))" by (simp add: p truthy_def)
  from handleSwipeBranch_real[OF find_D this, of st Next, unfolded p siblings_B]
  show ?thesis by (simp add: GHOST_ID_def mkMessage_def descend_C)
qed

lemma swipe_C_prev:
  "handleSwipeBranch treeABCDEF st ''C'' Prev =
     Some (Returned (st\<lparr> swipeDirection := Left, activeBranchHeadId := ''D'' \<rparr>))"
proof -
  have p: "parentId (mkMessage ''C'' (Some ''B'') 10) = Some ''B''" by (simp add: mkMessage_def)
  have "truthy (parentId (mkMessage ''C'' (Some ''B'') 10))" by (simp add: p truthy_def)
  from handleSwipeBranch_real[OF find_C this, of st Prev, unfolded p siblings_B]
  show ?thesis by (simp add: GHOST_ID_def mkMessage_def descend_D)
qed

lemma parentsEarlier_snoc:
  "parentsEarlier seen (ms @ [m]) \<longleftrightarrow>
     parentsEarlier seen ms \<and> msg_id m \<notin> set seen \<union> msg_id ` set ms \<and>
     (\<forall>p. parentId m = Some p \<longrightarrow> p \<in> set seen \<union> msg_id ` set ms)"
  by (induction ms arbitrary: seen) (auto split: option.splits)

lemma childRel_snoc:
  "childRel (ms @ [m]) = childRel ms \<union> (case parentId m of None \<Rightarrow> {} | Some p \<Rightarrow> {(p, msg_id m)})"
  by (auto simp: childRel_def split: option.splits)

lemma childRel_Domain:
  "parentsEarlier seen ms \<Longrightarrow> Domain (childRel ms) \<subseteq> set seen \<union> msg_id ` set ms"
proof (induction ms rule: rev_induct)
  case Nil
  then show ?case by (simp add: childRel_def)
next
  case (snoc m ms)
  from snoc.prems have pe: "parentsEarlier seen ms"
    and par: "\<forall>p. parentId m = Some p \<longrightarrow> p \<in> set seen \<union> msg_id ` set ms"
    by (simp_all add: parentsEarlier_snoc)
  from snoc.IH[OF pe] par show ?case
    by (auto simp: childRel_snoc split: option.splits)
qed

lemma parentsEarlier_acyclic:
  "parentsEarlier seen ms \<Longrightarrow> acyclic (childRel ms)"
proof (induction ms rule: rev_induct)
  case Nil
  then show ?case by (simp add: childRel_def acyclic_def)
next
  case (snoc m ms)
  from snoc.prems have pe: "parentsEarlier seen ms"
    and fresh: "msg_id m \<notin> set seen \<union> msg_id ` set ms"
    and par: "\<forall>p. parentId m = Some p \<longrightarrow> p \<in> set seen \<union> msg_id ` set ms"
    by (simp_all add: parentsEarlier_snoc)
  note ac = snoc.IH[OF pe]
  show ?case
  proof (cases "parentId m")
    case None
    with ac show ?thesis by (simp add: childRel_snoc)
  next
    case (Some p)
    with par fresh have ne: "p \<noteq> msg_id m" by auto
    from childRel_Domain[OF pe] fresh have nd: "msg_id m \<notin> Domain (childRel ms)" by auto
    have "(msg_id m, p) \<notin> (childRel ms)\<^sup>*"
    proof
      assume "(msg_id m, p) \<in> (childRel ms)\<^sup>*"
      then show False using ne nd by (auto elim: converse_rtranclE)
    qed
    with ac Some show ?thesis by (simp add: childRel_snoc acyclic_insert)
  qed
qed

lemma acyclic_treeABCDEF: "acyclic (childRel treeABCDEF)"
  by (rule parentsEarlier_acyclic[of "[]"]) (simp add: treeABCDEF_def treeABCD_def mkMessage_def)


lemma cyclic_closed:
  "\<forall>p \<in> {''a'', ''b''}. \<exists>q \<in> {''a'', ''b''}. mostRecentChild cyclicStore p = Some q"
  by (simp add: mostRecentChild_def cyclicStore_def mkMessage_def sortDesc_def)


lemma not_acyclic_cyclicStore: "\<not> acyclic (childRel cyclicStore)"
proof -
  have ab: "(''a'', ''b'') \<in> childRel cyclicStore" and ba: "(''b'', ''a'') \<in> childRel cyclicStore"
    by (simp_all add: childRel_def cyclicStore_def mkMessage_def)
  then have "(''a'', ''a'') \<in> (childRel cyclicStore)\<^sup>+" by (meson trancl.simps)
  then show ?thesis by (auto simp: acyclic_def)
qed

text \<open>
  C4. For a stored current message with a parent: swiping moves to the sibling at index
  (i + 1) mod n for 'next' and (i - 1) mod n for 'prev', where i is the current index in the
  sibling group sorted by timestamp and n its size (so 'next' from the last index gives 0
  and 'prev' from index 0 gives the last index), and the new head is what the descent from
  that sibling returns. Each step of the descent goes to a child with the greatest
  timestamp and stops at a message without children. In the tree where B has the children
  C and D and C has the children E (t = 30) and F (t = 40), swiping 'next' from D lands on
  F, and swiping 'prev' from C lands on D.
\<close>

theorem swipeSibling_wraps_then_descends:
  "(find (\<lambda>x. msg_id x = cur) msgs = Some m \<longrightarrow> truthy (parentId m) \<longrightarrow> cur \<noteq> GHOST_ID \<longrightarrow>
      handleSwipeBranch msgs st cur dir =
        map_option (\<lambda>p. Returned (st\<lparr> swipeDirection := (if dir = Prev then Left else Right),
                                       activeBranchHeadId := p \<rparr>))
          (descend msgs
             (msg_id (sortAsc (filter (\<lambda>x. parentId x = parentId m) msgs) !
                nat ((findIndex (\<lambda>s. msg_id s = cur)
                        (sortAsc (filter (\<lambda>x. parentId x = parentId m) msgs))
                       + (if dir = Next then 1 else - 1))
                     mod int (length (sortAsc (filter (\<lambda>x. parentId x = parentId m) msgs)))))))) \<and>
   (cur \<noteq> GHOST_ID \<longrightarrow> 0 < len \<longrightarrow>
      computeNextIndex cur Next (len - 1) len = 0 \<and> computeNextIndex cur Prev 0 len = len - 1) \<and>
   (mostRecentChild msgs p = Some c \<longrightarrow>
      (\<exists>k \<in> set msgs. msg_id k = c \<and> parentId k = Some p \<and>
         (\<forall>k' \<in> set msgs. parentId k' = Some p \<longrightarrow> timestamp k' \<le> timestamp k)) \<and>
      descend msgs p = descend msgs c) \<and>
   (mostRecentChild msgs p = None \<longrightarrow> descend msgs p = Some p) \<and>
   handleSwipeBranch treeABCDEF st ''D'' Next =
     Some (Returned (st\<lparr> swipeDirection := Right, activeBranchHeadId := ''F'' \<rparr>)) \<and>
   handleSwipeBranch treeABCDEF st ''C'' Prev =
     Some (Returned (st\<lparr> swipeDirection := Left, activeBranchHeadId := ''D'' \<rparr>))"
proof -
  have idx: "cur \<noteq> GHOST_ID \<longrightarrow> 0 < len \<longrightarrow>
      computeNextIndex cur Next (len - 1) len = 0 \<and> computeNextIndex cur Prev 0 len = len - 1"
    by (simp add: computeNextIndex_def)
  have d1: "mostRecentChild msgs p = Some c \<longrightarrow> descend msgs p = descend msgs c"
    by (simp add: descend.simps[of msgs p])
  have d2: "mostRecentChild msgs p = None \<longrightarrow> descend msgs p = Some p"
    by (simp add: descend.simps[of msgs p])
  from handleSwipeBranch_real[of cur msgs m st dir] idx d1 d2
    mostRecentChild_Some[of msgs p c] swipe_D_next[of st] swipe_C_prev[of st]
  show ?thesis by blast
qed

theorem swipeSibling_wraps_then_descends_witness:
  "find (\<lambda>x. msg_id x = ''D'') treeABCDEF = Some (mkMessage ''D'' (Some ''B'') 20) \<and>
   truthy (parentId (mkMessage ''D'' (Some ''B'') 20)) \<and> ''D'' \<noteq> GHOST_ID \<and> (0::int) < 2 \<and>
   computeNextIndex ''D'' Next (2 - 1) 2 = 0 \<and> computeNextIndex ''D'' Prev 0 2 = 2 - 1 \<and>
   mostRecentChild treeABCDEF ''C'' = Some ''F'' \<and>
   descend treeABCDEF ''C'' = descend treeABCDEF ''F'' \<and>
   handleSwipeBranch treeABCDEF navState0 ''D'' Next =
     Some (Returned \<lparr> activeBranchHeadId = ''F'', isDraftingBranch = False, swipeDirection = Right \<rparr>)"
proof -
  have g: "''D'' \<noteq> GHOST_ID" by (simp add: GHOST_ID_def)
  have t: "truthy (parentId (mkMessage ''D'' (Some ''B'') 20))" by (simp add: truthy_def mkMessage_def)
  have mc: "mostRecentChild treeABCDEF ''C'' = Some ''F''"
    by (simp add: mostRecentChild_def treeABCDEF_def treeABCD_def mkMessage_def sortDesc_def)
  have l: "(0::int) < 2" by simp
  note T = swipeSibling_wraps_then_descends[of "''D''" treeABCDEF "mkMessage ''D'' (Some ''B'') 20"
      navState0 Next 2 "''C''" "''F''"]
  from T have sw: "handleSwipeBranch treeABCDEF navState0 ''D'' Next =
      Some (Returned (navState0\<lparr> swipeDirection := Right, activeBranchHeadId := ''F'' \<rparr>))"
    by blast
  from T g l have idx: "computeNextIndex ''D'' Next (2 - 1) 2 = 0 \<and> computeNextIndex ''D'' Prev 0 2 = 2 - 1"
    by blast
  from T mc have de: "descend treeABCDEF ''C'' = descend treeABCDEF ''F''" by blast
  from sw have sw': "handleSwipeBranch treeABCDEF navState0 ''D'' Next =
     Some (Returned \<lparr> activeBranchHeadId = ''F'', isDraftingBranch = False, swipeDirection = Right \<rparr>)"
    by (simp add: navState0_def)
  from find_D t g l idx mc de sw' show ?thesis by blast
qed

lemma descend_cycleWithExit:
  "descend cycleWithExit ''c'' = Some ''c''"
  "descend cycleWithExit ''b'' = Some ''c''"
  "descend cycleWithExit ''a'' = Some ''c''"
proof -
  have mc: "mostRecentChild cycleWithExit ''c'' = None"
    and mb: "mostRecentChild cycleWithExit ''b'' = Some ''c''"
    and ma: "mostRecentChild cycleWithExit ''a'' = Some ''b''"
    by (simp_all add: mostRecentChild_def cycleWithExit_def mkMessage_def sortDesc_def)
  show c: "descend cycleWithExit ''c'' = Some ''c''"
    by (subst descend.simps) (simp add: mc)
  show b: "descend cycleWithExit ''b'' = Some ''c''"
    by (subst descend.simps) (simp add: mb c)
  show "descend cycleWithExit ''a'' = Some ''c''"
    by (subst descend.simps) (simp add: ma b)
qed

lemma not_acyclic_cycleWithExit: "\<not> acyclic (childRel cycleWithExit)"
proof -
  have ab: "(''a'', ''b'') \<in> childRel cycleWithExit" and ba: "(''b'', ''a'') \<in> childRel cycleWithExit"
    by (simp_all add: childRel_def cycleWithExit_def mkMessage_def)
  then have "(''a'', ''a'') \<in> (childRel cycleWithExit)\<^sup>+" by (meson trancl.simps)
  then show ?thesis by (auto simp: acyclic_def)
qed

text \<open>
  C10, as the claim states it, fails: a parent-link cycle among the stored messages does
  not by itself make the descent loop forever. In the store where a and b are each other's
  parent and b has the later child c, the parent links are not acyclic, and the descent
  returns c from each of the three messages.
\<close>

theorem descend_leaves_cycle_counterexample:
  "\<not> acyclic (childRel cycleWithExit) \<and>
   descend cycleWithExit ''a'' = Some ''c'' \<and>
   descend cycleWithExit ''b'' = Some ''c'' \<and>
   descend cycleWithExit ''c'' = Some ''c''"
  using not_acyclic_cycleWithExit descend_cycleWithExit by simp

text \<open>
  C10, amended. The leaf-descent loop of the swipe handler has no hop bound. Over a store
  whose parent links are acyclic (as they are in every store in insertion order) it returns
  from every start pointer, with a message that has no children, and each step goes from a
  message to one of its children. A parent-link cycle makes it run forever when the
  most-recent-child step stays on it: the loop never returns from a pointer inside a set of
  ids that this step does not leave, as on the store of two messages that are each other's
  parent (which is not acyclic), where the descent from either of them, and the swipe that
  starts it, do not return. A cycle that a later-timestamped child leads out of is left:
  on the store where b has the further child c the descent from a returns c.
\<close>

theorem descend_terminates_on_acyclic_store:
  "(acyclic (childRel msgs) \<longrightarrow>
      (\<exists>leaf. descend msgs p = Some leaf \<and> mostRecentChild msgs leaf = None)) \<and>
   (parentsEarlier [] msgs \<longrightarrow> acyclic (childRel msgs)) \<and>
   (mostRecentChild msgs p = Some c \<longrightarrow> (p, c) \<in> childRel msgs) \<and>
   ((\<forall>q \<in> S. \<exists>r \<in> S. mostRecentChild msgs q = Some r) \<longrightarrow>
      (\<forall>q \<in> S. descend msgs q = None)) \<and>
   \<not> acyclic (childRel cyclicStore) \<and>
   descend cyclicStore ''a'' = None \<and> descend cyclicStore ''b'' = None \<and>
   handleSwipeBranch cyclicStore st ''a'' Next = None \<and>
   descend cycleWithExit ''a'' = Some ''c''"
proof -
  have a: "acyclic (childRel msgs) \<longrightarrow>
      (\<exists>leaf. descend msgs p = Some leaf \<and> mostRecentChild msgs leaf = None)"
    using descend_total[of msgs p] descend_leaf[of msgs p] by blast
  have cyc: "descend cyclicStore ''a'' = None" "descend cyclicStore ''b'' = None"
    using descend_loops[OF cyclic_closed] by simp_all
  have f: "find (\<lambda>x. msg_id x = ''a'') cyclicStore = Some (mkMessage ''a'' (Some ''b'') 1)"
    by (simp add: cyclicStore_def mkMessage_def)
  have p: "parentId (mkMessage ''a'' (Some ''b'') 1) = Some ''b''" by (simp add: mkMessage_def)
  have t: "truthy (parentId (mkMessage ''a'' (Some ''b'') 1))" by (simp add: p truthy_def)
  have sib: "sortAsc (filter (\<lambda>x. parentId x = Some ''b'') cyclicStore) = [mkMessage ''a'' (Some ''b'') 1]"
    by (simp add: cyclicStore_def mkMessage_def sortAsc_def)
  have g: "''a'' \<noteq> GHOST_ID" by (simp add: GHOST_ID_def)
  have sw: "handleSwipeBranch cyclicStore st ''a'' Next = None"
    using handleSwipeBranch_real[OF f t g, of st Next, unfolded p sib] cyc
    by (simp add: mkMessage_def)
  from a mostRecentChild_in[of msgs p c] descend_loops[of S msgs]
    not_acyclic_cyclicStore cyc sw parentsEarlier_acyclic[of "[]" msgs] descend_cycleWithExit(3)
  show ?thesis by blast
qed

theorem descend_terminates_on_acyclic_store_witness:
  "parentsEarlier [] treeABCDEF \<and> acyclic (childRel treeABCDEF) \<and>
   descend treeABCDEF ''C'' = Some ''F'' \<and> mostRecentChild treeABCDEF ''F'' = None \<and>
   mostRecentChild treeABCDEF ''C'' = Some ''F'' \<and> (''C'', ''F'') \<in> childRel treeABCDEF \<and>
   mostRecentChild cyclicStore ''a'' = Some ''b'' \<and> mostRecentChild cyclicStore ''b'' = Some ''a'' \<and>
   descend cyclicStore ''b'' = None"
proof -
  have mc: "mostRecentChild treeABCDEF ''C'' = Some ''F''"
    by (simp add: mostRecentChild_def treeABCDEF_def treeABCD_def mkMessage_def sortDesc_def)
  have mf: "mostRecentChild treeABCDEF ''F'' = None"
    by (simp add: mostRecentChild_def treeABCDEF_def treeABCD_def mkMessage_def sortDesc_def)
  have pe: "parentsEarlier [] treeABCDEF"
    by (simp add: treeABCDEF_def treeABCD_def mkMessage_def)
  have ca: "mostRecentChild cyclicStore ''a'' = Some ''b''"
    and cb: "mostRecentChild cyclicStore ''b'' = Some ''a''"
    by (simp_all add: mostRecentChild_def cyclicStore_def mkMessage_def sortDesc_def)
  from descend_terminates_on_acyclic_store[of treeABCDEF "''C''" "''F''" "{}" navState0]
    descend_terminates_on_acyclic_store[of cyclicStore "''a''" "''b''" "{''a'', ''b''}" navState0]
    acyclic_treeABCDEF descend_C mc mf ca cb pe
  show ?thesis by simp
qed

section \<open>Properties of the submit handler\<close>

text \<open>
  C1, as the claim states it, fails: a draft submitted at a message without children (an
  explicit branch from the leaf A) gets the eager chapter although the fork point had no
  children.
\<close>

theorem submit_draft_at_leaf_counterexample:
  "trim (inputText draftAtLeaf) \<noteq> [] \<and> \<not> isStreaming draftAtLeaf \<and>
   \<not> parentHasChildren (messages draftAtLeaf) (activeBranchHeadId draftAtLeaf) \<and>
   chapters draftAtLeaf = [] \<and>
   map startMessageId (chapters (handleSendMessage clock0 draftAtLeaf)) = [''msg-1700''] \<and>
   map messageCount (chapters (handleSendMessage clock0 draftAtLeaf)) = [0] \<and>
   map msg_id (messages (handleSendMessage clock0 draftAtLeaf)) = [''root'', ''A'', ''msg-1700'', ''resp-1701'']"
  by (simp add: handleSendMessage_def Let_def draftAtLeaf_def clock0_def trim_def isWhiteSpace_def
      parentHasChildren_def mkMessage_def showInt_def showNat.simps)

text \<open>
  C1, amended. When content is submitted (non-blank input, no stream in flight), the new
  message is appended below the active head, and a chapter with startMessageId = the new
  message and messageCount = 0 is appended if and only if the submission comes from a draft
  branch, or the active head already had children and is not the root; otherwise the
  chapter list is unchanged. A blank input or a stream in flight leaves the state as it is.
\<close>

theorem eager_branch_chapter_on_submit:
  "(trim (inputText st) \<noteq> [] \<longrightarrow> \<not> isStreaming st \<longrightarrow>
      map msg_id (messages (handleSendMessage clock st)) =
        map msg_id (messages st) @ [''msg-'' @ showInt (t_msgId clock), ''resp-'' @ showInt (t_respId clock)] \<and>
      map parentId (messages (handleSendMessage clock st)) =
        map parentId (messages st) @ [Some (activeBranchHeadId st), Some (''msg-'' @ showInt (t_msgId clock))] \<and>
      chapters (handleSendMessage clock st) =
        (if isDraftingBranch st \<or>
            ((\<exists>m \<in> set (messages st). parentId m = Some (activeBranchHeadId st)) \<and>
             activeBranchHeadId st \<noteq> ''root'')
         then chapters st @
                [\<lparr> chap_id = ''chap-'' @ showInt (t_chapId clock),
                   title = ''Branch: '' @ take 15 (inputText st)
                             @ (if length (inputText st) > 15 then ''...'' else []),
                   chap_category = DECISION,
                   startMessageId = ''msg-'' @ showInt (t_msgId clock),
                   messageCount = 0, subtopics = [] \<rparr>]
         else chapters st)) \<and>
   (trim (inputText st) = [] \<or> isStreaming st \<longrightarrow> handleSendMessage clock st = st)"
  by (auto simp add: handleSendMessage_def Let_def parentHasChildren_def)

theorem eager_branch_chapter_on_submit_witness:
  "trim (inputText (typedAt ''B'')) \<noteq> [] \<and> \<not> isStreaming (typedAt ''B'') \<and>
   parentHasChildren (messages (typedAt ''B'')) ''B'' \<and>
   map startMessageId (chapters (handleSendMessage clock0 (typedAt ''B''))) = [''msg-1700''] \<and>
   \<not> parentHasChildren (messages (typedAt ''D'')) ''D'' \<and>
   chapters (handleSendMessage clock0 (typedAt ''D'')) = [] \<and>
   parentHasChildren (messages (typedAt ''root'')) ''root'' \<and>
   chapters (handleSendMessage clock0 (typedAt ''root'')) = [] \<and>
   handleSendMessage clock0 (typedAt ''B''\<lparr> isStreaming := True \<rparr>) = typedAt ''B''\<lparr> isStreaming := True \<rparr>"
proof -
  have t: "trim ''hi'' \<noteq> []" by (simp add: trim_def isWhiteSpace_def)
  have s: "showInt (t_msgId clock0) = ''1700''" by (simp add: clock0_def showInt_def showNat.simps)
  have b: "parentHasChildren (treeABCD 0 1 2) ''B''" "\<not> parentHasChildren (treeABCD 0 1 2) ''D''"
     "parentHasChildren (treeABCD 0 1 2) ''root''"
    by (simp_all add: parentHasChildren_def treeABCD_def mkMessage_def)
  from eager_branch_chapter_on_submit[of "typedAt ''B''" clock0]
       eager_branch_chapter_on_submit[of "typedAt ''D''" clock0]
       eager_branch_chapter_on_submit[of "typedAt ''root''" clock0]
       eager_branch_chapter_on_submit[of "typedAt ''B''\<lparr> isStreaming := True \<rparr>" clock0]
       t s b b[unfolded parentHasChildren_def]
  show ?thesis by (simp add: typedAt_def)
qed

section \<open>Properties of the topic classifier\<close>

lemma strategies_fail:
  assumes "\<forall>p. \<not> truthy (executeGeminiAnalysis pr p)" "\<forall>p. \<not> truthy (callOllamaAnalysis pr p)"
  shows "topicShiftLoop (strategies pr b) prompt topic = ''SAME''"
    and "initialTitleLoop (strategies pr b) prompt = ''Conversation Start''"
  using assms by (simp_all add: strategies_def)

text \<open>
  C7, as the claim states it, fails: with no prior topic title and every provider failing,
  the classification resolves to "Conversation Start", not to "SAME".
\<close>

theorem classification_without_topic_counterexample:
  "analyzeTopicShift noProvider None [(RoleUser, ''Hi'')] GEMINI = ''Conversation Start'' \<and>
   analyzeTopicShift noProvider None [(RoleUser, ''Hi'')] GEMINI \<noteq> ''SAME'' \<and>
   analyzeTopicShift noProvider None [(RoleUser, ''Hi'')] OLLAMA \<noteq> ''SAME''"
  by (simp add: analyzeTopicShift_def generateInitialTitle_def noProvider_def strategies_def truthy_def)

text \<open>
  C7, amended. When every provider call fails (answers \<open>null\<close> or the empty string), the
  classification resolves to "SAME" if a prior topic title exists (a non-empty string), and
  to "Conversation Start" if there is none (\<open>null\<close> or empty).
\<close>

theorem classification_fallback_when_providers_fail:
  "(\<forall>p. \<not> truthy (executeGeminiAnalysis pr p)) \<longrightarrow> (\<forall>p. \<not> truthy (callOllamaAnalysis pr p)) \<longrightarrow>
     analyzeTopicShift pr topic newMsgs backend =
       (if truthy topic then ''SAME'' else ''Conversation Start'')"
  using strategies_fail[of pr]
  by (simp add: analyzeTopicShift_def generateInitialTitle_def Let_def)

theorem classification_fallback_when_providers_fail_witness:
  "analyzeTopicShift noProvider (Some ''Cats'') [(RoleUser, ''Hi'')] GEMINI = ''SAME'' \<and>
   analyzeTopicShift noProvider (Some ''Cats'') [(RoleUser, ''Hi'')] OLLAMA = ''SAME'' \<and>
   analyzeTopicShift noProvider None [(RoleUser, ''Hi'')] GEMINI = ''Conversation Start''"
  using classification_fallback_when_providers_fail[of noProvider "Some ''Cats''" "[(RoleUser, ''Hi'')]" GEMINI]
    classification_fallback_when_providers_fail[of noProvider "Some ''Cats''" "[(RoleUser, ''Hi'')]" OLLAMA]
    classification_fallback_when_providers_fail[of noProvider None "[(RoleUser, ''Hi'')]" GEMINI]
  by (simp add: noProvider_def truthy_def)


section \<open>Properties of the chapter segmenter\<close>

lemma findIndex_minus1: "findIndex P xs = -1 \<longleftrightarrow> (\<forall>x \<in> set xs. \<not> P x)"
  using findIndex_neg[of P xs] findIndex_miss[of xs P] by auto

lemma findLastIndex_minus1: "findLastIndex P xs = -1 \<longleftrightarrow> (\<forall>x \<in> set xs. \<not> P x)"
proof -
  have "findIndex P (rev xs) < int (length xs)" using findIndex_upper[of P "rev xs"] by simp
  then show ?thesis
    using findIndex_neg[of P "rev xs"] by (auto simp: findLastIndex_def Let_def)
qed



text \<open>The three outcomes of the fold-in.\<close>

lemma foldIn_cases:
  "foldIn now (startMsg # rest) n valid result prev =
     (if findIndex (\<lambda>c. startMessageId c = msg_id startMsg) prev \<noteq> -1 then
        prev[nat (findIndex (\<lambda>c. startMessageId c = msg_id startMsg) prev) :=
          (prev ! nat (findIndex (\<lambda>c. startMessageId c = msg_id startMsg) prev))
            \<lparr> title := (if result = ''SAME''
                        then title (prev ! nat (findIndex (\<lambda>c. startMessageId c = msg_id startMsg) prev))
                        else result),
              messageCount := messageCount (prev ! nat (findIndex (\<lambda>c. startMessageId c = msg_id startMsg) prev)) + n,
              subtopics := take 12 (dedupe (subtopics (prev ! nat (findIndex (\<lambda>c. startMessageId c = msg_id startMsg) prev))
                             @ extractSubtopics (startMsg # rest))) \<rparr>]
      else if (if result = ''SAME'' \<and> length prev > 0
               then findLastIndex (\<lambda>c. startMessageId c \<in> set (map msg_id valid)) prev else -1) \<noteq> -1 then
        prev[nat (findLastIndex (\<lambda>c. startMessageId c \<in> set (map msg_id valid)) prev) :=
          (prev ! nat (findLastIndex (\<lambda>c. startMessageId c \<in> set (map msg_id valid)) prev))
            \<lparr> messageCount := messageCount (prev ! nat (findLastIndex (\<lambda>c. startMessageId c \<in> set (map msg_id valid)) prev)) + n,
              subtopics := take 12 (dedupe (subtopics (prev ! nat (findLastIndex (\<lambda>c. startMessageId c \<in> set (map msg_id valid)) prev))
                             @ extractSubtopics (startMsg # rest))) \<rparr>]
      else prev @ [\<lparr> chap_id = ''chap-'' @ showInt now,
                     title = (if result = ''SAME'' then ''Greeting'' else result),
                     chap_category = determineCategory result,
                     startMessageId = msg_id startMsg,
                     messageCount = (if n = 0 then 1 else n),
                     subtopics = extractSubtopics (startMsg # rest) \<rparr>])"
  unfolding foldIn_def Let_def list.case by (simp only: if_split) auto

lemma foldIn_relevant_iff:
  "(if result = ''SAME'' \<and> length prev > 0
    then findLastIndex (\<lambda>c. startMessageId c \<in> set (map msg_id valid)) prev else -1) = -1
   \<longleftrightarrow> (result = ''SAME'' \<longrightarrow> (\<forall>ch \<in> set prev. startMessageId ch \<notin> set (map msg_id valid)))"
proof (cases "result = ''SAME'' \<and> length prev > 0")
  case True
  then show ?thesis
    using findLastIndex_minus1[of "\<lambda>c. startMessageId c \<in> set (map msg_id valid)" prev]
    by simp
next
  case False
  then have "result \<noteq> ''SAME'' \<or> prev = []" by blast
  then show ?thesis by auto
qed

lemma foldIn_length:
  "length (foldIn now buf n valid result prev) =
     (if buf \<noteq> [] \<and> (\<forall>ch \<in> set prev. startMessageId ch \<noteq> msg_id (hd buf)) \<and>
         (result = ''SAME'' \<longrightarrow> (\<forall>ch \<in> set prev. startMessageId ch \<notin> set (map msg_id valid)))
      then Suc (length prev) else length prev)"
proof (cases buf)
  case Nil
  then show ?thesis by (simp add: foldIn_def)
next
  case (Cons startMsg rest)
  have m: "findIndex (\<lambda>c. startMessageId c = msg_id startMsg) prev = -1
            \<longleftrightarrow> (\<forall>ch \<in> set prev. startMessageId ch \<noteq> msg_id startMsg)"
    by (rule findIndex_minus1)
  note l = foldIn_relevant_iff[of result prev valid]
  show ?thesis
  proof (cases "findIndex (\<lambda>c. startMessageId c = msg_id startMsg) prev = -1")
    case False
    with m show ?thesis unfolding Cons foldIn_cases by simp
  next
    case True
    show ?thesis
    proof (cases "(if result = ''SAME'' \<and> length prev > 0
       then findLastIndex (\<lambda>c. startMessageId c \<in> set (map msg_id valid)) prev else -1) = -1")
      case False
      with True m l show ?thesis unfolding Cons foldIn_cases by simp
    next
      case t: True
      with True m l show ?thesis unfolding Cons foldIn_cases by simp
    qed
  qed
qed

lemma foldIn_create:
  assumes "length (foldIn now buf n valid result prev) = Suc (length prev)"
  shows "foldIn now buf n valid result prev =
           prev @ [\<lparr> chap_id = ''chap-'' @ showInt now,
                     title = (if result = ''SAME'' then ''Greeting'' else result),
                     chap_category = determineCategory result,
                     startMessageId = msg_id (hd buf),
                     messageCount = (if n = 0 then 1 else n),
                     subtopics = extractSubtopics buf \<rparr>]"
proof (cases buf)
  case Nil
  with assms show ?thesis by (simp add: foldIn_def)
next
  case (Cons startMsg rest)
  from assms have c: "(\<forall>ch \<in> set prev. startMessageId ch \<noteq> msg_id startMsg)"
     "(result = ''SAME'' \<longrightarrow> (\<forall>ch \<in> set prev. startMessageId ch \<notin> set (map msg_id valid)))"
    unfolding foldIn_length Cons by (simp_all split: if_splits)
  from c(1) have m: "findIndex (\<lambda>c. startMessageId c = msg_id startMsg) prev = -1"
    by (simp only: findIndex_minus1) 
  from c(2) have l: "(if result = ''SAME'' \<and> length prev > 0
    then findLastIndex (\<lambda>c. startMessageId c \<in> set (map msg_id valid)) prev else -1) = -1"
    by (simp only: foldIn_relevant_iff)
  show ?thesis unfolding Cons foldIn_cases using m l by simp
qed

lemma extractSubtopics_batchHi: "extractSubtopics batchHi = []"
  by (simp add: extractSubtopics_def batchHi_def toLowerCase_def toLowerChar_def trim_def
      isWhiteSpace_def IGNORED_WORDS_def)

lemma determineCategory_SAME: "determineCategory ''SAME'' = REFINEMENT"
  by (simp add: determineCategory_def toLowerCase_def toLowerChar_def)

lemma showInt_7: "showInt 7 = ''7''"
  by (simp add: showInt_def showNat.simps)

text \<open>
  C2, as the claim states it, fails: a new chapter is titled "Greeting" although a prior
  chapter exists, when the classifier answers "SAME" and the prior chapter belongs to
  another branch.
\<close>

theorem greeting_with_prior_chapters_counterexample:
  "length [otherBranchChapter] \<noteq> 0 \<and>
   foldIn 7 batchHi 2 batchHi ''SAME'' [otherBranchChapter] =
     [otherBranchChapter,
      \<lparr> chap_id = ''chap-7'', title = ''Greeting'', chap_category = REFINEMENT,
        startMessageId = ''msg-9'', messageCount = 2, subtopics = [] \<rparr>]"
proof -
  have b: "batchHi = hd batchHi # tl batchHi" and i: "msg_id (hd batchHi) = ''msg-9''"
    and v: "map msg_id batchHi = [''msg-9'', ''resp-9'']"
    by (simp_all add: batchHi_def)
  have m: "findIndex (\<lambda>c. startMessageId c = msg_id (hd batchHi)) [otherBranchChapter] = -1"
    by (simp add: i otherBranchChapter_def)
  have l: "findLastIndex (\<lambda>c. startMessageId c \<in> set (map msg_id batchHi)) [otherBranchChapter] = -1"
    by (simp add: v findLastIndex_def otherBranchChapter_def)
  have "foldIn 7 (hd batchHi # tl batchHi) 2 batchHi ''SAME'' [otherBranchChapter] =
     [otherBranchChapter,
      \<lparr> chap_id = ''chap-7'', title = ''Greeting'', chap_category = REFINEMENT,
        startMessageId = ''msg-9'', messageCount = 2, subtopics = [] \<rparr>]"
    unfolding foldIn_cases m l
    using extractSubtopics_batchHi determineCategory_SAME showInt_7 i b by simp
  with b show ?thesis by simp
qed

text \<open>
  C2, amended. The fold-in creates a new chapter exactly when the batch is not empty, no
  chapter starts at the batch's first message and, if the classifier result is "SAME", no
  chapter starts at a message of the batch's thread (zero prior chapters is one such case).
  The new chapter is appended, and its title is "Greeting" if the result is literally
  "SAME" and the classifier's returned title otherwise. In every other case the fold-in
  keeps the number of chapters.
\<close>

theorem new_chapter_title:
  "(length (foldIn now buf n valid result prev) = Suc (length prev) \<longleftrightarrow>
      buf \<noteq> [] \<and> (\<forall>ch \<in> set prev. startMessageId ch \<noteq> msg_id (hd buf)) \<and>
      (result = ''SAME'' \<longrightarrow> (\<forall>ch \<in> set prev. startMessageId ch \<notin> set (map msg_id valid)))) \<and>
   (length (foldIn now buf n valid result prev) = Suc (length prev) \<longrightarrow>
      butlast (foldIn now buf n valid result prev) = prev \<and>
      title (last (foldIn now buf n valid result prev)) =
        (if result = ''SAME'' then ''Greeting'' else result)) \<and>
   (length (foldIn now buf n valid result prev) \<noteq> Suc (length prev) \<longrightarrow>
      length (foldIn now buf n valid result prev) = length prev)"
proof -
  have a: "length (foldIn now buf n valid result prev) = Suc (length prev) \<longleftrightarrow>
      buf \<noteq> [] \<and> (\<forall>ch \<in> set prev. startMessageId ch \<noteq> msg_id (hd buf)) \<and>
      (result = ''SAME'' \<longrightarrow> (\<forall>ch \<in> set prev. startMessageId ch \<notin> set (map msg_id valid)))"
    unfolding foldIn_length by simp
  have b: "length (foldIn now buf n valid result prev) = Suc (length prev) \<longrightarrow>
      butlast (foldIn now buf n valid result prev) = prev \<and>
      title (last (foldIn now buf n valid result prev)) =
        (if result = ''SAME'' then ''Greeting'' else result)"
    using foldIn_create[of now buf n valid result prev] by auto
  have c: "length (foldIn now buf n valid result prev) \<noteq> Suc (length prev) \<longrightarrow>
      length (foldIn now buf n valid result prev) = length prev"
    unfolding foldIn_length by simp
  from a b c show ?thesis by blast
qed

theorem new_chapter_title_witness:
  "length (foldIn 7 batchHi 2 batchHi ''Cat Facts'' [otherBranchChapter]) = Suc (length [otherBranchChapter]) \<and>
   title (last (foldIn 7 batchHi 2 batchHi ''Cat Facts'' [otherBranchChapter])) = ''Cat Facts'' \<and>
   length (foldIn 7 batchHi 2 batchHi ''SAME'' []) = Suc (length ([] :: Chapter list)) \<and>
   title (last (foldIn 7 batchHi 2 batchHi ''SAME'' [])) = ''Greeting''"
proof -
  have i: "batchHi \<noteq> []" "msg_id (hd batchHi) = ''msg-9''" by (simp_all add: batchHi_def)
  note T1 = new_chapter_title[of 7 batchHi 2 batchHi "''Cat Facts''" "[otherBranchChapter]"]
  note T2 = new_chapter_title[of 7 batchHi 2 batchHi "''SAME''" "[]"]
  from T1 i have l1: "length (foldIn 7 batchHi 2 batchHi ''Cat Facts'' [otherBranchChapter]) = Suc (length [otherBranchChapter])"
    by (simp add: otherBranchChapter_def)
  from T2 i have l2: "length (foldIn 7 batchHi 2 batchHi ''SAME'' []) = Suc (length ([] :: Chapter list))"
    by simp
  from T1 l1 have t1: "title (last (foldIn 7 batchHi 2 batchHi ''Cat Facts'' [otherBranchChapter])) = ''Cat Facts''"
    by simp
  from T2 l2 have t2: "title (last (foldIn 7 batchHi 2 batchHi ''SAME'' [])) = ''Greeting''"
    by simp
  from l1 l2 t1 t2 show ?thesis by blast
qed

















end
